theory Spec2Isabelle
  imports Main
begin

section \<open>Python values and list indexing\<close>

text \<open>
  The engine is the class \<open>Minesweeper\<close> of \<open>X-Minesweeper.py\<close>. Its two grids are
  Python lists of lists, indexed as \<open>grid[r][c]\<close>. Python resolves a negative index
  from the end of the list and raises \<open>IndexError\<close> outside \<open>[-len, len)\<close>; both are
  part of the model, because the engine itself never checks a coordinate.
\<close>

datatype py_error = IndexError | ValueError | RecursionError

text \<open>A cell of \<open>self.board\<close>: the string \<open>'M'\<close> or an integer count.\<close>

datatype cell = Mine | Count nat

type_synonym 'a grid = "'a list list"

text \<open>The list position that a Python index stands for.\<close>

definition pos :: "'a list \<Rightarrow> int \<Rightarrow> nat" where
  "pos xs i = (if i < 0 then nat (int (length xs) + i) else nat i)"

text \<open>\<open>xs[i]\<close> and \<open>xs[i] = v\<close>.\<close>

definition py_index :: "'a list \<Rightarrow> int \<Rightarrow> py_error + 'a" where
  "py_index xs i =
     (if - int (length xs) \<le> i \<and> i < int (length xs) then Inr (xs ! pos xs i)
      else Inl IndexError)"

definition py_store :: "'a list \<Rightarrow> int \<Rightarrow> 'a \<Rightarrow> py_error + 'a list" where
  "py_store xs i v =
     (if - int (length xs) \<le> i \<and> i < int (length xs) then Inr (xs[pos xs i := v])
      else Inl IndexError)"

text \<open>\<open>grid[r][c]\<close> and \<open>grid[r][c] = v\<close>. The rows of a grid are distinct list objects
  (each is built by its own comprehension), so storing into one row leaves the others.\<close>

definition grid_get :: "'a grid \<Rightarrow> int \<Rightarrow> int \<Rightarrow> py_error + 'a" where
  "grid_get g r c = (case py_index g r of Inl e \<Rightarrow> Inl e | Inr row \<Rightarrow> py_index row c)"

definition grid_set :: "'a grid \<Rightarrow> int \<Rightarrow> int \<Rightarrow> 'a \<Rightarrow> py_error + 'a grid" where
  "grid_set g r c v =
     (case py_index g r of
        Inl e \<Rightarrow> Inl e
      | Inr row \<Rightarrow> (case py_store row c v of
                     Inl e \<Rightarrow> Inl e
                   | Inr row' \<Rightarrow> py_store g r row'))"

text \<open>\<open>range(n)\<close> and \<open>range(a, b)\<close>.\<close>

definition py_range :: "int \<Rightarrow> int list" where
  "py_range n = map int [0..<nat n]"

definition py_range2 :: "int \<Rightarrow> int \<Rightarrow> int list" where
  "py_range2 a b = map (\<lambda>k. a + int k) [0..<nat (b - a)]"

text \<open>\<open>str(n)\<close> for a non-negative integer.\<close>

definition digit_char :: "nat \<Rightarrow> char" where
  "digit_char d = ''0123456789'' ! d"

fun str_nat :: "nat \<Rightarrow> string" where
  "str_nat n = (if n < 10 then [digit_char n]
                else str_nat (n div 10) @ [digit_char (n mod 10)])"

declare str_nat.simps [simp del]

fun str_cell :: "cell \<Rightarrow> string" where
  "str_cell Mine = ''M''"
| "str_cell (Count n) = str_nat n"

section \<open>The engine state\<close>

record minesweeper =
  rows :: int
  cols :: int
  num_mines :: int
  board :: "cell grid"
  visible_board :: "string grid"
  game_over :: bool
  win :: bool

text \<open>\<open>_get_neighbors\<close>: the two nested \<open>for\<close> loops with their filter.\<close>

definition get_neighbors :: "minesweeper \<Rightarrow> int \<Rightarrow> int \<Rightarrow> (int \<times> int) list" where
  "get_neighbors g r c =
     concat (map (\<lambda>i. concat (map (\<lambda>j.
        if 0 \<le> i \<and> i < rows g \<and> 0 \<le> j \<and> j < cols g \<and> (i, j) \<noteq> (r, c) then [(i, j)] else [])
        (py_range2 (c - 1) (c + 2)))) (py_range2 (r - 1) (r + 2)))"

text \<open>The coordinates visited by \<open>for r in range(rows): for c in range(cols)\<close>, in order.\<close>

definition all_cells :: "minesweeper \<Rightarrow> (int \<times> int) list" where
  "all_cells g = concat (map (\<lambda>r. map (\<lambda>c. (r, c)) (py_range (cols g))) (py_range (rows g)))"

section \<open>Construction\<close>

text \<open>
  \<open>random.randint(a, b)\<close> raises \<open>ValueError\<close> when \<open>b < a\<close> and otherwise returns some
  integer of \<open>[a, b]\<close>. The generator is outside the program: the model is given the raw
  values it produces as a list and reduces each into the requested interval, so that
  every list stands for one possible run of the generator.
\<close>

definition randint :: "int \<Rightarrow> int \<Rightarrow> int \<Rightarrow> int" where
  "randint a b raw = a + raw mod (b - a + 1)"

text \<open>
  \<open>_place_mines\<close>. The \<open>while\<close> loop has no bound of its own. The result is \<open>None\<close> when
  the loop is still running after the last raw value has been used, \<open>Some (Inl e)\<close> when
  it raised \<open>e\<close>, and \<open>Some (Inr g)\<close> when it finished.
\<close>

fun place_mines :: "minesweeper \<Rightarrow> int \<Rightarrow> int list \<Rightarrow> (py_error + minesweeper) option" where
  "place_mines g mines_placed draws =
     (if \<not> mines_placed < num_mines g then Some (Inr g)
      else if rows g - 1 < 0 then Some (Inl ValueError)
      else (case draws of
        [] \<Rightarrow> None
      | x # draws1 \<Rightarrow>
         (if cols g - 1 < 0 then Some (Inl ValueError)
          else (case draws1 of
            [] \<Rightarrow> None
          | y # draws2 \<Rightarrow>
             (case grid_get (board g) (randint 0 (rows g - 1) x) (randint 0 (cols g - 1) y) of
                Inl e \<Rightarrow> Some (Inl e)
              | Inr v \<Rightarrow>
                 (if v \<noteq> Mine then
                    (case grid_set (board g) (randint 0 (rows g - 1) x)
                                   (randint 0 (cols g - 1) y) Mine of
                       Inl e \<Rightarrow> Some (Inl e)
                     | Inr b \<Rightarrow> place_mines (g\<lparr>board := b\<rparr>) (mines_placed + 1) draws2)
                  else place_mines g mines_placed draws2))))))"

declare place_mines.simps [simp del]

text \<open>\<open>_calculate_numbers\<close>: the inner loop over the neighbours, then the loop over the cells.\<close>

fun count_adjacent :: "cell grid \<Rightarrow> (int \<times> int) list \<Rightarrow> nat \<Rightarrow> py_error + nat" where
  "count_adjacent b [] count = Inr count"
| "count_adjacent b ((nr, nc) # rest) count =
     (case grid_get b nr nc of
        Inl e \<Rightarrow> Inl e
      | Inr v \<Rightarrow> count_adjacent b rest (if v = Mine then count + 1 else count))"

fun calculate_cells :: "minesweeper \<Rightarrow> (int \<times> int) list \<Rightarrow> py_error + minesweeper" where
  "calculate_cells g [] = Inr g"
| "calculate_cells g ((r, c) # rest) =
     (case grid_get (board g) r c of
        Inl e \<Rightarrow> Inl e
      | Inr v \<Rightarrow>
         (if v = Mine then calculate_cells g rest
          else (case count_adjacent (board g) (get_neighbors g r c) 0 of
            Inl e \<Rightarrow> Inl e
          | Inr count \<Rightarrow>
             (case grid_set (board g) r c (Count count) of
                Inl e \<Rightarrow> Inl e
              | Inr b \<Rightarrow> calculate_cells (g\<lparr>board := b\<rparr>) rest))))"

definition calculate_numbers :: "minesweeper \<Rightarrow> py_error + minesweeper" where
  "calculate_numbers g = calculate_cells g (all_cells g)"

text \<open>The assignments of \<open>__init__\<close> before the two calls. The constructor nests three
  calls at most (\<open>__init__\<close>, \<open>_calculate_numbers\<close>, \<open>_get_neighbors\<close>), whatever the
  board; it is taken to have the frames for them.\<close>

definition new_game :: "int \<Rightarrow> int \<Rightarrow> int \<Rightarrow> minesweeper" where
  "new_game rws cls mines =
     \<lparr>rows = rws, cols = cls, num_mines = mines,
      board = map (\<lambda>_. map (\<lambda>_. Count 0) (py_range cls)) (py_range rws),
      visible_board = map (\<lambda>_. map (\<lambda>_. '' '') (py_range cls)) (py_range rws),
      game_over = False, win = False\<rparr>"

definition init :: "int \<Rightarrow> int \<Rightarrow> int \<Rightarrow> int list \<Rightarrow> (py_error + minesweeper) option" where
  "init rws cls mines draws =
     (case place_mines (new_game rws cls mines) 0 draws of
        None \<Rightarrow> None
      | Some (Inl e) \<Rightarrow> Some (Inl e)
      | Some (Inr g) \<Rightarrow> Some (calculate_numbers g))"

section \<open>\<open>check_win\<close>, \<open>flag\<close> and \<open>reveal\<close>\<close>

text \<open>
  A method returns the exception it raised, if any, together with the state of the
  object at that point: a Python exception does not undo the assignments made before it.
\<close>

fun count_hidden :: "string grid \<Rightarrow> (int \<times> int) list \<Rightarrow> int \<Rightarrow> py_error + int" where
  "count_hidden vb [] hidden_cells = Inr hidden_cells"
| "count_hidden vb ((r, c) # rest) hidden_cells =
     (case grid_get vb r c of
        Inl e \<Rightarrow> Inl e
      | Inr v \<Rightarrow> count_hidden vb rest (if v = '' '' then hidden_cells + 1 else hidden_cells))"

definition check_win :: "minesweeper \<Rightarrow> py_error option \<times> minesweeper" where
  "check_win g =
     (case count_hidden (visible_board g) (all_cells g) 0 of
        Inl e \<Rightarrow> (Some e, g)
      | Inr hidden_cells \<Rightarrow>
          if hidden_cells = num_mines g
          then (None, g\<lparr>win := True, game_over := True\<rparr>)
          else (None, g))"

definition flag :: "minesweeper \<Rightarrow> int \<Rightarrow> int \<Rightarrow> py_error option \<times> minesweeper" where
  "flag g r c =
     (if game_over g then (None, g)
      else (case grid_get (visible_board g) r c of
        Inl e \<Rightarrow> (Some e, g)
      | Inr v \<Rightarrow>
          (if v \<noteq> '' '' \<and> v \<noteq> ''F'' then (None, g)
           else if v = '' '' then
             (case grid_set (visible_board g) r c ''F'' of
                Inl e \<Rightarrow> (Some e, g)
              | Inr vb \<Rightarrow> (None, g\<lparr>visible_board := vb\<rparr>))
           else if v = ''F'' then
             (case grid_set (visible_board g) r c '' '' of
                Inl e \<Rightarrow> (Some e, g)
              | Inr vb \<Rightarrow> (None, g\<lparr>visible_board := vb\<rparr>))
           else (None, g))))"

text \<open>
  \<open>reveal\<close> calls itself from the loop over the neighbours; \<open>reveal_neighbors\<close> is that
  loop. Every call of a method takes a frame of the interpreter's stack, and the
  interpreter raises \<open>RecursionError\<close> at a call for which no frame is left; the cascade
  nests one call of \<open>reveal\<close> per cell, so the stack is part of the model. \<open>depth\<close> is the
  number of frames still free below the frame of this call of \<open>reveal\<close>: the calls of
  \<open>_get_neighbors\<close> and \<open>check_win\<close> need one of them, and a nested \<open>reveal\<close> is left with
  \<open>depth - 1\<close>. The error leaves the cells marked so far as they are. The board cell
  is read once here (the source reads \<open>self.board[r][c]\<close> three times, and nothing writes
  the board in between).
\<close>

function reveal :: "nat \<Rightarrow> minesweeper \<Rightarrow> int \<Rightarrow> int \<Rightarrow> py_error option \<times> minesweeper"
  and reveal_neighbors ::
    "nat \<Rightarrow> minesweeper \<Rightarrow> (int \<times> int) list \<Rightarrow> py_error option \<times> minesweeper"
where
  "reveal depth g r c =
     (if game_over g then (None, g)
      else (case grid_get (visible_board g) r c of
        Inl e \<Rightarrow> (Some e, g)
      | Inr v \<Rightarrow>
         (if v \<noteq> '' '' then (None, g)
          else (case grid_get (board g) r c of
            Inl e \<Rightarrow> (Some e, g)
          | Inr b \<Rightarrow>
             (if b = Mine then
                (case grid_set (visible_board g) r c ''M'' of
                   Inl e \<Rightarrow> (Some e, g\<lparr>game_over := True\<rparr>)
                 | Inr vb \<Rightarrow> (None, g\<lparr>game_over := True, visible_board := vb\<rparr>))
              else
                (case grid_set (visible_board g) r c (str_cell b) of
                   Inl e \<Rightarrow> (Some e, g)
                 | Inr vb \<Rightarrow>
                    (case (if b = Count 0
                           then (if depth = 0
                                 then (Some RecursionError, g\<lparr>visible_board := vb\<rparr>)
                                 else reveal_neighbors depth (g\<lparr>visible_board := vb\<rparr>)
                                        (get_neighbors (g\<lparr>visible_board := vb\<rparr>) r c))
                           else (None, g\<lparr>visible_board := vb\<rparr>)) of
                       (Some e, g') \<Rightarrow> (Some e, g')
                     | (None, g') \<Rightarrow>
                         (if depth = 0 then (Some RecursionError, g')
                          else check_win g'))))))))"
| "reveal_neighbors depth g [] = (None, g)"
| "reveal_neighbors depth g ((nr, nc) # rest) =
     (case grid_get (visible_board g) nr nc of
        Inl e \<Rightarrow> (Some e, g)
      | Inr v \<Rightarrow>
         (if v = '' '' then
            (if depth = 0 then (Some RecursionError, g)
             else (case reveal (depth - 1) g nr nc of
                (Some e, g') \<Rightarrow> (Some e, g')
              | (None, g') \<Rightarrow> reveal_neighbors depth g' rest))
          else reveal_neighbors depth g rest))"
  by pat_completeness auto

section \<open>Games, calls and outcomes\<close>

text \<open>The outcome as \<open>_check_game_status\<close> reads it from the two flags.\<close>

datatype outcome = InProgress | Won | Lost

definition outcome_of :: "minesweeper \<Rightarrow> outcome" where
  "outcome_of g = (if game_over g then (if win g then Won else Lost) else InProgress)"

datatype call = Reveal int int | Flag int int

text \<open>A call made by the user of the engine, with \<open>depth\<close> frames free below it.\<close>

fun do_call :: "nat \<Rightarrow> minesweeper \<Rightarrow> call \<Rightarrow> py_error option \<times> minesweeper" where
  "do_call depth g (Reveal r c) = reveal depth g r c"
| "do_call depth g (Flag r c) = flag g r c"

text \<open>A sequence of calls on one engine; a call that raises leaves the engine as it is
  at that point, and the next call goes on from there.\<close>

fun run :: "nat \<Rightarrow> minesweeper \<Rightarrow> call list \<Rightarrow> minesweeper" where
  "run depth g [] = g"
| "run depth g (k # ks) = run depth (snd (do_call depth g k)) ks"

text \<open>The engine built by \<open>Minesweeper(rws, cls, mines)\<close> under the given raw random
  values, after the given calls.\<close>

definition game_after ::
  "nat \<Rightarrow> int \<Rightarrow> int \<Rightarrow> int \<Rightarrow> int list \<Rightarrow> call list \<Rightarrow> minesweeper option" where
  "game_after depth rws cls mines draws calls =
     (case init rws cls mines draws of
        Some (Inr g) \<Rightarrow> Some (run depth g calls)
      | _ \<Rightarrow> None)"

definition in_range :: "minesweeper \<Rightarrow> int \<Rightarrow> int \<Rightarrow> bool" where
  "in_range g r c \<longleftrightarrow> 0 \<le> r \<and> r < rows g \<and> 0 \<le> c \<and> c < cols g"

fun call_in_range :: "int \<Rightarrow> int \<Rightarrow> call \<Rightarrow> bool" where
  "call_in_range rws cls (Reveal r c) \<longleftrightarrow> 0 \<le> r \<and> r < rws \<and> 0 \<le> c \<and> c < cls"
| "call_in_range rws cls (Flag r c) \<longleftrightarrow> 0 \<le> r \<and> r < rws \<and> 0 \<le> c \<and> c < cls"

text \<open>Both grids are \<open>rows\<close> lists of \<open>cols\<close> cells.\<close>

definition shaped :: "minesweeper \<Rightarrow> bool" where
  "shaped g \<longleftrightarrow>
     map length (board g) = replicate (nat (rows g)) (nat (cols g)) \<and>
     map length (visible_board g) = replicate (nat (rows g)) (nat (cols g))"

text \<open>The number of hazards among the neighbours of a cell, and the board on which
  every count is that number.\<close>

definition adjacent_mines :: "minesweeper \<Rightarrow> int \<Rightarrow> int \<Rightarrow> nat" where
  "adjacent_mines g r c =
     length (filter (\<lambda>(i, j). grid_get (board g) i j = Inr Mine) (get_neighbors g r c))"

definition counts_ok :: "minesweeper \<Rightarrow> bool" where
  "counts_ok g \<longleftrightarrow>
     list_all (\<lambda>(r, c). case grid_get (board g) r c of
                          Inr (Count k) \<Rightarrow> k = adjacent_mines g r c
                        | _ \<Rightarrow> True) (all_cells g)"

definition mine_revealed :: "minesweeper \<Rightarrow> bool" where
  "mine_revealed g \<longleftrightarrow> list_ex (\<lambda>row. ''M'' \<in> set row) (visible_board g)"

text \<open>The occurrences of a value in a grid, and the hidden cells of an engine: each
  nested call of \<open>reveal\<close> that goes on takes one of them.\<close>

definition grid_count :: "'a \<Rightarrow> 'a grid \<Rightarrow> nat" where
  "grid_count v g = sum_list (map (\<lambda>row. count_list row v) g)"

definition hidden :: "minesweeper \<Rightarrow> nat" where
  "hidden g = grid_count '' '' (visible_board g)"

text \<open>The nine cells around and including \<open>(r, c)\<close>, in the order of the two loops of
  \<open>_get_neighbors\<close>.\<close>

definition square :: "int \<Rightarrow> int \<Rightarrow> (int \<times> int) list" where
  "square r c = List.product [r - 1, r, r + 1] [c - 1, c, c + 1]"

text \<open>What \<open>reveal\<close> and \<open>flag\<close> leave alone: the dimensions, the mine count, the board
  and the shape of the visibility grid; a flag once set stays set; and \<open>win\<close> is only
  ever set together with \<open>game_over\<close>.\<close>

definition frame :: "minesweeper \<Rightarrow> minesweeper \<Rightarrow> bool" where
  "frame g g' \<longleftrightarrow>
     rows g' = rows g \<and> cols g' = cols g \<and> num_mines g' = num_mines g \<and>
     board g' = board g \<and>
     map length (visible_board g') = map length (visible_board g) \<and>
     (game_over g \<longrightarrow> game_over g') \<and> (win g \<longrightarrow> win g') \<and>
     ((win g \<longrightarrow> game_over g) \<longrightarrow> (win g' \<longrightarrow> game_over g'))"

text \<open>What the two construction loops leave alone.\<close>

definition board_frame :: "minesweeper \<Rightarrow> minesweeper \<Rightarrow> bool" where
  "board_frame g g' \<longleftrightarrow>
     rows g' = rows g \<and> cols g' = cols g \<and> num_mines g' = num_mines g \<and>
     visible_board g' = visible_board g \<and> game_over g' = game_over g \<and> win g' = win g \<and>
     map length (board g') = map length (board g)"

text \<open>The cells of \<open>D\<close> that hold a count hold the number of hazards around them.\<close>

definition good :: "minesweeper \<Rightarrow> (int \<times> int) set \<Rightarrow> bool" where
  "good g D \<longleftrightarrow>
     (\<forall>(r, c) \<in> D. \<forall>k. grid_get (board g) r c = Inr (Count k) \<longrightarrow> k = adjacent_mines g r c)"

text \<open>A change of state that shows no hazard: the visibility of every hazard cell is
  kept, no \<open>'M'\<close> appears, and the game is not ended except by a win.\<close>

definition safe_step :: "minesweeper \<Rightarrow> minesweeper \<Rightarrow> bool" where
  "safe_step g g' \<longleftrightarrow>
     (\<forall>i j. in_range g i j \<longrightarrow> grid_get (board g) i j = Inr Mine \<longrightarrow>
            grid_get (visible_board g') i j = grid_get (visible_board g) i j) \<and>
     (mine_revealed g' \<longrightarrow> mine_revealed g) \<and>
     (game_over g' \<longrightarrow> game_over g \<or> win g')"

text \<open>The invariant of the games played with coordinates of the grid.\<close>

definition fair :: "minesweeper \<Rightarrow> bool" where
  "fair g \<longleftrightarrow> shaped g \<and> counts_ok g \<and> (win g \<longrightarrow> game_over g) \<and>
              (mine_revealed g \<longrightarrow> game_over g \<and> \<not> win g)"

section \<open>Example engines\<close>

text \<open>The engines built by \<open>Minesweeper(1, 3, 1)\<close> and \<open>Minesweeper(1, 4, 1)\<close> when the
  mine falls on \<open>(0, 0)\<close>, by \<open>Minesweeper(3, 3, 1)\<close> when it falls on \<open>(0, 0)\<close>, and by
  \<open>Minesweeper(3, 3, 1)\<close> with the mine on \<open>(1, 1)\<close> after \<open>reveal(0, 0)\<close> and
  \<open>flag(2, 2)\<close>.\<close>

definition game_1x3 :: minesweeper where
  "game_1x3 = \<lparr>rows = 1, cols = 3, num_mines = 1,
                board = [[Mine, Count 1, Count 0]],
                visible_board = [['' '', '' '', '' '']],
                game_over = False, win = False\<rparr>"

definition game_1x4 :: minesweeper where
  "game_1x4 = \<lparr>rows = 1, cols = 4, num_mines = 1,
                board = [[Mine, Count 1, Count 0, Count 0]],
                visible_board = [['' '', '' '', '' '', '' '']],
                game_over = False, win = False\<rparr>"

definition corner_3x3 :: minesweeper where
  "corner_3x3 = \<lparr>rows = 3, cols = 3, num_mines = 1,
                  board = [[Mine, Count 1, Count 0],
                           [Count 1, Count 1, Count 0],
                           [Count 0, Count 0, Count 0]],
                  visible_board = [['' '', '' '', '' ''],
                                   ['' '', '' '', '' ''],
                                   ['' '', '' '', '' '']],
                  game_over = False, win = False\<rparr>"

definition played_3x3 :: minesweeper where
  "played_3x3 = \<lparr>rows = 3, cols = 3, num_mines = 1,
                  board = [[Count 1, Count 1, Count 1],
                           [Count 1, Mine, Count 1],
                           [Count 1, Count 1, Count 1]],
                  visible_board = [[''1'', '' '', '' ''],
                                   ['' '', '' '', '' ''],
                                   ['' '', '' '', ''F'']],
                  game_over = False, win = False\<rparr>"

section \<open>Counting cells, and the termination of \<open>reveal\<close>\<close>

lemma count_list_update:
  "j < length xs \<Longrightarrow>
     count_list (xs[j := w]) v + (if xs ! j = v then 1 else 0)
       = count_list xs v + (if w = v then 1 else 0)"
proof (induction xs arbitrary: j)
  case Nil
  then show ?case by simp
next
  case (Cons x xs)
  show ?case
  proof (cases j)
    case 0
    then show ?thesis by simp
  next
    case (Suc k)
    with Cons.prems have "k < length xs" by simp
    from Cons.IH[OF this] Suc show ?thesis by (auto split: if_splits)
  qed
qed

lemma sum_list_map_update:
  fixes f :: "'a \<Rightarrow> nat"
  shows "i < length xs \<Longrightarrow> sum_list (map f (xs[i := y])) + f (xs ! i) = sum_list (map f xs) + f y"
  by (induction xs arbitrary: i) (auto split: nat.splits)

lemma pos_less: "- int (length xs) \<le> i \<Longrightarrow> i < int (length xs) \<Longrightarrow> pos xs i < length xs"
  by (auto simp: pos_def)

lemma pos_nonneg [simp]: "0 \<le> i \<Longrightarrow> pos xs i = nat i"
  by (simp add: pos_def)

lemma grid_get_InrD:
  assumes "grid_get g r c = Inr x"
  shows "pos g r < length g \<and> pos (g ! pos g r) c < length (g ! pos g r)
         \<and> x = g ! pos g r ! pos (g ! pos g r) c"
  using assms
  by (auto simp: grid_get_def py_index_def pos_less split: sum.splits if_splits)

lemma grid_set_InrD:
  assumes "grid_set g r c v = Inr g'"
  shows "pos g r < length g \<and> pos (g ! pos g r) c < length (g ! pos g r)
         \<and> g' = g[pos g r := (g ! pos g r)[pos (g ! pos g r) c := v]]"
  using assms
  by (auto simp: grid_set_def py_index_def py_store_def pos_less split: sum.splits if_splits)

lemma grid_count_set:
  assumes "grid_get g r c = Inr old" and "grid_set g r c new = Inr g'"
  shows "grid_count v g' + (if old = v then 1 else 0) = grid_count v g + (if new = v then 1 else 0)"
proof -
  let ?i = "pos g r" and ?row = "g ! pos g r"
  let ?j = "pos ?row c"
  from grid_get_InrD[OF assms(1)] grid_set_InrD[OF assms(2)]
  have i: "?i < length g" and j: "?j < length ?row" and old: "old = ?row ! ?j"
    and g': "g' = g[?i := ?row[?j := new]]" by auto
  have "grid_count v g' + count_list ?row v = grid_count v g + count_list (?row[?j := new]) v"
    unfolding grid_count_def g' using sum_list_map_update[OF i, of "\<lambda>row. count_list row v"] by simp
  moreover have "count_list (?row[?j := new]) v + (if old = v then 1 else 0)
       = count_list ?row v + (if new = v then 1 else 0)"
    unfolding old by (rule count_list_update[OF j])
  ultimately show ?thesis by simp
qed

lemma set_str_nat: "set (str_nat n) \<subseteq> set ''0123456789''"
proof (induction n rule: str_nat.induct)
  case (1 n)
  have d: "digit_char k \<in> set ''0123456789''" if "k < 10" for k
    unfolding digit_char_def using that by (intro nth_mem) simp
  show ?case
  proof (cases "n < 10")
    case True
    then show ?thesis using d[of n] by (subst str_nat.simps) simp
  next
    case False
    with "1" have "set (str_nat (n div 10)) \<subseteq> set ''0123456789''" by simp
    moreover have "digit_char (n mod 10) \<in> set ''0123456789''" by (rule d) simp
    ultimately show ?thesis using False by (subst str_nat.simps) simp
  qed
qed

lemma str_nat_not_marker [simp]:
  "str_nat n \<noteq> '' ''" "str_nat n \<noteq> ''F''" "str_nat n \<noteq> ''M''"
  using set_str_nat[of n] by auto

lemma str_cell_not_hidden: "b \<noteq> Mine \<Longrightarrow> str_cell b \<noteq> '' ''"
  by (cases b) simp_all

lemma check_win_visible [simp]: "visible_board (snd (check_win g)) = visible_board g"
  by (simp add: check_win_def split: sum.splits)

lemma hidden_check_win [simp]: "hidden (snd (check_win g)) = hidden g"
  by (simp add: hidden_def)

lemma hidden_mark:
  assumes "grid_get (visible_board g) r c = Inr '' ''"
    and "grid_set (visible_board g) r c s = Inr vb" and "s \<noteq> '' ''"
  shows "hidden (g\<lparr>visible_board := vb\<rparr>) < hidden g"
  using grid_count_set[OF assms(1,2), of "'' ''"] assms(3) by (simp add: hidden_def)

lemma hidden_simps [simp]:
  "hidden (g\<lparr>game_over := x\<rparr>) = hidden g"
  "hidden (g\<lparr>win := y\<rparr>) = hidden g"
  by (simp_all add: hidden_def)

lemma hidden_mark_le:
  assumes "grid_get (visible_board g) r c = Inr '' ''"
    and "grid_set (visible_board g) r c s = Inr vb"
  shows "hidden (g\<lparr>visible_board := vb\<rparr>) \<le> hidden g"
  using grid_count_set[OF assms, of "'' ''"] by (simp add: hidden_def split: if_splits)

termination reveal
  by (relation "inv_image (less_than <*lex*> less_than <*lex*> less_than)
         (\<lambda>x. case x of Inl (depth, g, r, c) \<Rightarrow> (depth, 1::nat, 0::nat)
                       | Inr (depth, g, ns) \<Rightarrow> (depth, 0, length ns))")
     auto

section \<open>Properties\<close>

subsection \<open>Grids of a fixed shape\<close>

lemma shape_length: "map length g = replicate n m \<Longrightarrow> length g = n"
  by (metis length_map length_replicate)

lemma shape_row: "map length g = replicate n m \<Longrightarrow> i < n \<Longrightarrow> length (g ! i) = m"
  by (metis length_map length_replicate nth_map nth_replicate)

lemma grid_get_in:
  assumes "map length g = replicate n m" "0 \<le> r" "r < int n" "0 \<le> c" "c < int m"
  shows "grid_get g r c = Inr (g ! nat r ! nat c)"
  using assms shape_length[OF assms(1)] shape_row[OF assms(1), of "nat r"]
  by (simp add: grid_get_def py_index_def)

lemma grid_set_in:
  assumes "map length g = replicate n m" "0 \<le> r" "r < int n" "0 \<le> c" "c < int m"
  shows "grid_set g r c v = Inr (g[nat r := (g ! nat r)[nat c := v]])"
  using assms shape_length[OF assms(1)] shape_row[OF assms(1), of "nat r"]
  by (simp add: grid_set_def py_index_def py_store_def)

lemma grid_get_out:
  assumes "map length g = replicate n m"
    and "r < - int n \<or> int n \<le> r \<or> c < - int m \<or> int m \<le> c"
  shows "grid_get g r c = Inl IndexError"
proof (cases "py_index g r")
  case (Inl e)
  then show ?thesis by (cases e) (auto simp: grid_get_def py_index_def Let_def split: if_splits)
next
  case (Inr row)
  then have "pos g r < n" "row = g ! pos g r" and r: "- int n \<le> r" "r < int n"
    using shape_length[OF assms(1)]
    by (auto simp: py_index_def pos_def Let_def split: if_splits)
  then have "length row = m" using shape_row[OF assms(1)] by simp
  with Inr assms(2) r show ?thesis
    by (auto simp: grid_get_def py_index_def Let_def)
qed

lemma grid_set_shape: "grid_set g r c v = Inr g' \<Longrightarrow> map length g' = map length g"
  by (drule grid_set_InrD) (auto simp: map_update list_update_same_conv)

lemma grid_get_update:
  assumes "map length g = replicate n m" "0 \<le> r" "r < int n" "0 \<le> c" "c < int m"
    and "0 \<le> r'" "r' < int n" "0 \<le> c'" "c' < int m"
  shows "grid_get (g[nat r := (g ! nat r)[nat c := v]]) r' c'
         = (if r' = r \<and> c' = c then Inr v else grid_get g r' c')"
proof -
  let ?g' = "g[nat r := (g ! nat r)[nat c := v]]"
  have len: "length g = n" and row: "length (g ! nat r) = m"
    using shape_length[OF assms(1)] shape_row[OF assms(1), of "nat r"] assms by auto
  have "map length ?g' = replicate n m"
    using assms(1-3) len row by (simp add: map_update list_update_same_conv)
  from grid_get_in[OF this assms(6-9)] grid_get_in[OF assms(1) assms(6-9)]
  show ?thesis using assms len row
    by (auto simp: nth_list_update nat_eq_iff)
qed

lemma grid_get_implies_set:
  "grid_get g r c = Inr x \<Longrightarrow> \<exists>g'. grid_set g r c v = Inr g'"
  by (auto simp: grid_get_def grid_set_def py_index_def py_store_def Let_def
           split: sum.splits if_splits)

subsection \<open>One step of \<open>reveal\<close>\<close>

lemma reveal_cases [case_names noop error mine number zero]:
  obtains
    (noop) "reveal depth g r c = (None, g)"
      "game_over g \<or> (\<exists>v. grid_get (visible_board g) r c = Inr v \<and> v \<noteq> '' '')"
  | (error) e where "reveal depth g r c = (Some e, g)" "\<not> game_over g"
      "grid_get (visible_board g) r c = Inl e \<or>
       grid_get (visible_board g) r c = Inr '' '' \<and> grid_get (board g) r c = Inl e"
  | (mine) vb where "\<not> game_over g" "grid_get (visible_board g) r c = Inr '' ''"
      "grid_get (board g) r c = Inr Mine"
      "grid_set (visible_board g) r c ''M'' = Inr vb"
      "reveal depth g r c = (None, g\<lparr>game_over := True, visible_board := vb\<rparr>)"
  | (number) k vb where "\<not> game_over g" "grid_get (visible_board g) r c = Inr '' ''"
      "grid_get (board g) r c = Inr (Count (Suc k))"
      "grid_set (visible_board g) r c (str_nat (Suc k)) = Inr vb"
      "reveal depth g r c =
         (if depth = 0 then (Some RecursionError, g\<lparr>visible_board := vb\<rparr>)
          else check_win (g\<lparr>visible_board := vb\<rparr>))"
  | (zero) vb where "\<not> game_over g" "grid_get (visible_board g) r c = Inr '' ''"
      "grid_get (board g) r c = Inr (Count 0)"
      "grid_set (visible_board g) r c (str_nat 0) = Inr vb"
      "reveal depth g r c =
         (if depth = 0 then (Some RecursionError, g\<lparr>visible_board := vb\<rparr>)
          else (case reveal_neighbors depth (g\<lparr>visible_board := vb\<rparr>)
                       (get_neighbors (g\<lparr>visible_board := vb\<rparr>) r c) of
                  (Some e, g') \<Rightarrow> (Some e, g')
                | (None, g') \<Rightarrow> check_win g'))"
proof (cases "game_over g")
  case True
  then show ?thesis using noop by simp
next
  case go: False
  show ?thesis
  proof (cases "grid_get (visible_board g) r c")
    case (Inl e)
    with go show ?thesis using error[of e] by simp
  next
    case (Inr v)
    show ?thesis
    proof (cases "v = '' ''")
      case False
      with go Inr show ?thesis using noop by simp
    next
      case True
      note vis = Inr[unfolded True]
      show ?thesis
      proof (cases "grid_get (board g) r c")
        case (Inl e)
        with go vis show ?thesis using error[of e] by simp
      next
        case b: (Inr b)
        from grid_get_implies_set[OF vis, of "str_cell b"]
        obtain vb where vb: "grid_set (visible_board g) r c (str_cell b) = Inr vb" by blast
        show ?thesis
        proof (cases b)
          case Mine
          with go vis b vb show ?thesis using mine[of vb] by simp
        next
          case (Count k)
          show ?thesis
          proof (cases k)
            case 0
            with go vis b vb Count show ?thesis using zero[of vb]
              by (cases "depth = 0") (simp_all split: prod.splits option.splits)
          next
            case (Suc k')
            with go vis b vb Count show ?thesis using number[of k' vb] by simp
          qed
        qed
      qed
    qed
  qed
qed

lemma reveal_neighbors_cases [case_names error skip overflow stop continue]:
  obtains
    (error) e where "grid_get (visible_board g) nr nc = Inl e"
      "reveal_neighbors depth g ((nr, nc) # rest) = (Some e, g)"
  | (skip) v where "grid_get (visible_board g) nr nc = Inr v" "v \<noteq> '' ''"
      "reveal_neighbors depth g ((nr, nc) # rest) = reveal_neighbors depth g rest"
  | (overflow) "grid_get (visible_board g) nr nc = Inr '' ''" "depth = 0"
      "reveal_neighbors depth g ((nr, nc) # rest) = (Some RecursionError, g)"
  | (stop) e g' where "grid_get (visible_board g) nr nc = Inr '' ''" "depth \<noteq> 0"
      "reveal (depth - 1) g nr nc = (Some e, g')"
      "reveal_neighbors depth g ((nr, nc) # rest) = (Some e, g')"
  | (continue) g' where "grid_get (visible_board g) nr nc = Inr '' ''" "depth \<noteq> 0"
      "reveal (depth - 1) g nr nc = (None, g')"
      "reveal_neighbors depth g ((nr, nc) # rest) = reveal_neighbors depth g' rest"
proof (cases "grid_get (visible_board g) nr nc")
  case (Inl e)
  then show ?thesis using error[of e] by simp
next
  case (Inr v)
  show ?thesis
  proof (cases "v = '' ''")
    case False
    with Inr show ?thesis using skip[of v] by simp
  next
    case True
    show ?thesis
    proof (cases "depth = 0")
      case True
      with Inr \<open>v = '' ''\<close> show ?thesis using overflow by simp
    next
      case False
      obtain x g' where res: "reveal (depth - 1) g nr nc = (x, g')"
        by (cases "reveal (depth - 1) g nr nc")
      show ?thesis
      proof (cases x)
        case None
        with Inr True False res show ?thesis using continue[of g'] by simp
      next
        case (Some e)
        with Inr True False res show ?thesis using stop[of e g'] by simp
      qed
    qed
  qed
qed

declare reveal.simps [simp del] reveal_neighbors.simps(2) [simp del]

subsection \<open>What no call changes\<close>

lemma frame_refl [simp]: "frame g g"
  by (simp add: frame_def)

lemma frame_trans: "frame g g' \<Longrightarrow> frame g' g'' \<Longrightarrow> frame g g''"
  by (auto simp: frame_def)

lemma frame_check_win: "frame g (snd (check_win g))"
  by (simp add: frame_def check_win_def split: sum.splits)

lemma frame_mark:
  "grid_set (visible_board g) r c s = Inr vb \<Longrightarrow> frame g (g\<lparr>visible_board := vb\<rparr>)"
  by (simp add: frame_def grid_set_shape)

lemma frame_mark_mine:
  "grid_set (visible_board g) r c s = Inr vb \<Longrightarrow>
     frame g (g\<lparr>game_over := True, visible_board := vb\<rparr>)"
  by (simp add: frame_def grid_set_shape)

lemma frame_reveal:
  "frame g (snd (reveal depth g r c))"
  "frame g (snd (reveal_neighbors depth g ns))"
proof (induct depth g r c and depth g ns rule: reveal_reveal_neighbors.induct)
  case (1 depth g r c)
  show ?case
  proof (cases rule: reveal_cases[where depth=depth and g=g and r=r and c=c])
    case noop
    then show ?thesis by simp
  next
    case (error e)
    then show ?thesis by simp
  next
    case (mine vb)
    then show ?thesis by (simp add: frame_mark_mine)
  next
    case (number k vb)
    then show ?thesis
      using frame_trans[OF frame_mark frame_check_win] frame_mark by simp
  next
    case (zero vb)
    let ?g1 = "g\<lparr>visible_board := vb\<rparr>"
    let ?res = "reveal_neighbors depth ?g1 (get_neighbors ?g1 r c)"
    have fr1: "frame g ?g1" by (rule frame_mark[OF zero(4)])
    show ?thesis
    proof (cases "depth = 0")
      case True
      with fr1 zero(5) show ?thesis by simp
    next
      case False
      from "1"[OF zero(1,2) _ zero(3) _ _ _ False] zero(4)
      have "frame ?g1 (snd ?res)" by simp
      with fr1 have *: "frame g (snd ?res)" by (rule frame_trans)
      show ?thesis
      proof (cases ?res)
        case (Pair x g')
        with * False show ?thesis using zero(5) frame_trans[OF _ frame_check_win, of g g']
          by (cases x) simp_all
      qed
    qed
  qed
next
  case (2 depth g)
  then show ?case by simp
next
  case (3 depth g nr nc rest)
  show ?case
  proof (cases rule: reveal_neighbors_cases[where depth=depth and g=g and nr=nr and nc=nc
                                              and rest=rest])
    case (error e)
    then show ?thesis by simp
  next
    case (skip v)
    with "3"(3) show ?thesis by simp
  next
    case overflow
    then show ?thesis by simp
  next
    case (stop e g')
    with "3"(1) show ?thesis by simp
  next
    case (continue g')
    with "3"(1) have "frame g g'" by simp
    moreover from "3"(2)[OF continue(1) refl continue(2) continue(3)[symmetric] refl]
    have "frame g' (snd (reveal_neighbors depth g' rest))" .
    ultimately show ?thesis using continue(4) by (simp add: frame_trans)
  qed
qed

lemma frame_flag: "frame g (snd (flag g r c))"
  by (auto simp: flag_def frame_mark split: sum.splits)

subsection \<open>Coordinates\<close>

lemma py_range2_three: "py_range2 (x - 1) (x + 2) = [x - 1, x, x + 1]"
proof -
  have "nat (x + 2 - (x - 1)) = 3" by simp
  moreover have "[0..<3] = [0, 1, 2::nat]" by (simp add: upt_rec)
  ultimately show ?thesis by (simp add: py_range2_def)
qed

lemma concat_map_if:
  "concat (map (\<lambda>j. if P j then [f j] else []) ys) = map f (filter P ys)"
  by (induction ys) simp_all

lemma concat_map_product:
  "concat (map (\<lambda>i. concat (map (\<lambda>j. if P i j then [(i, j)] else []) ys)) xs)
     = filter (\<lambda>(i, j). P i j) (List.product xs ys)"
  by (induction xs) (simp_all add: concat_map_if filter_map comp_def)

lemma get_neighbors_filter:
  "get_neighbors g r c = filter (\<lambda>(i, j). in_range g i j \<and> (i, j) \<noteq> (r, c)) (square r c)"
  unfolding get_neighbors_def py_range2_three concat_map_product square_def in_range_def
  by (simp only: conj_assoc)

lemma near_iff: "i \<in> set [r - 1, r, r + 1] \<longleftrightarrow> \<bar>i - r\<bar> \<le> (1::int)"
  by auto

lemma set_square: "(i, j) \<in> set (square r c) \<longleftrightarrow> \<bar>i - r\<bar> \<le> 1 \<and> \<bar>j - c\<bar> \<le> 1"
  unfolding square_def set_product mem_Times_iff fst_conv snd_conv near_iff ..

lemma set_get_neighbors:
  "set (get_neighbors g r c)
     = {(i, j). \<bar>i - r\<bar> \<le> 1 \<and> \<bar>j - c\<bar> \<le> 1 \<and> (i, j) \<noteq> (r, c) \<and> in_range g i j}"
  unfolding get_neighbors_filter set_filter using set_square by blast

lemma distinct_get_neighbors: "distinct (get_neighbors g r c)"
  unfolding get_neighbors_filter square_def
  by (intro distinct_filter distinct_product) simp_all

lemma length_filter_mono:
  "(\<And>x. P x \<Longrightarrow> Q x) \<Longrightarrow> length (filter P xs) \<le> length (filter Q xs)"
  by (induction xs) auto

lemma length_get_neighbors: "length (get_neighbors g r c) \<le> 8"
proof -
  have "length (get_neighbors g r c) \<le> length (filter (\<lambda>p. p \<noteq> (r, c)) (square r c))"
    unfolding get_neighbors_filter
    by (rule length_filter_mono) auto
  also have "\<dots> = 8" by (simp add: square_def)
  finally show ?thesis .
qed

lemma get_neighbors_in_range: "(i, j) \<in> set (get_neighbors g r c) \<Longrightarrow> in_range g i j"
  by (auto simp: get_neighbors_filter)

lemma set_py_range: "set (py_range n) = {k. 0 \<le> k \<and> k < n}"
proof -
  have "k \<in> int ` {0..<nat n} \<longleftrightarrow> 0 \<le> k \<and> k < n" for k
    by (auto simp: image_iff intro: bexI[of _ "nat k"])
  then show ?thesis by (auto simp: py_range_def)
qed

lemma set_all_cells: "set (all_cells g) = {(r, c). in_range g r c}"
  by (auto simp: all_cells_def set_py_range in_range_def)

lemma frame_in_range: "frame g g' \<Longrightarrow> in_range g' r c = in_range g r c"
  by (simp add: frame_def in_range_def)

lemma frame_shaped: "frame g g' \<Longrightarrow> shaped g \<Longrightarrow> shaped g'"
  by (simp add: frame_def shaped_def)

lemma frame_get_neighbors: "frame g g' \<Longrightarrow> get_neighbors g' r c = get_neighbors g r c"
  by (simp add: frame_def get_neighbors_def)

lemma frame_all_cells: "frame g g' \<Longrightarrow> all_cells g' = all_cells g"
  by (simp add: frame_def all_cells_def)

lemma vis_get:
  "shaped g \<Longrightarrow> in_range g r c \<Longrightarrow>
     grid_get (visible_board g) r c = Inr (visible_board g ! nat r ! nat c)"
  by (rule grid_get_in[where n="nat (rows g)" and m="nat (cols g)"])
     (auto simp: shaped_def in_range_def)

lemma board_get:
  "shaped g \<Longrightarrow> in_range g r c \<Longrightarrow> grid_get (board g) r c = Inr (board g ! nat r ! nat c)"
  by (rule grid_get_in[where n="nat (rows g)" and m="nat (cols g)"])
     (auto simp: shaped_def in_range_def)

lemma vis_set:
  "shaped g \<Longrightarrow> in_range g r c \<Longrightarrow>
     grid_set (visible_board g) r c v
       = Inr ((visible_board g)[nat r := (visible_board g ! nat r)[nat c := v]])"
  by (rule grid_set_in[where n="nat (rows g)" and m="nat (cols g)"])
     (auto simp: shaped_def in_range_def)

lemma vis_get_set:
  assumes "shaped g" "in_range g r c" "in_range g r' c'"
    and "grid_set (visible_board g) r c v = Inr vb"
  shows "grid_get vb r' c' = (if r' = r \<and> c' = c then Inr v else grid_get (visible_board g) r' c')"
proof -
  from assms(4) vis_set[OF assms(1,2), of v]
  have vb: "vb = (visible_board g)[nat r := (visible_board g ! nat r)[nat c := v]]" by simp
  show ?thesis unfolding vb
    by (rule grid_get_update[where n="nat (rows g)" and m="nat (cols g)"])
       (use assms(1-3) in \<open>auto simp: shaped_def in_range_def\<close>)
qed

subsection \<open>No call on a cell of the grid reads outside it\<close>

lemma count_hidden_ok:
  "(\<And>r c. (r, c) \<in> set cells \<Longrightarrow> \<exists>v. grid_get vb r c = Inr v) \<Longrightarrow>
     \<exists>k. count_hidden vb cells n = Inr k"
proof (induction cells arbitrary: n)
  case Nil
  then show ?case by simp
next
  case (Cons x cells)
  obtain r c where x: "x = (r, c)" by (cases x)
  from Cons.prems[of r c] x obtain v where v: "grid_get vb r c = Inr v" by auto
  have "\<exists>k. count_hidden vb cells n' = Inr k" for n'
    by (rule Cons.IH) (use Cons.prems in auto)
  with v x show ?case by simp
qed

lemma check_win_ok: "shaped g \<Longrightarrow> fst (check_win g) = None"
proof -
  assume sh: "shaped g"
  have "\<exists>k. count_hidden (visible_board g) (all_cells g) 0 = Inr k"
    by (rule count_hidden_ok) (use sh in \<open>auto simp: set_all_cells vis_get\<close>)
  then show ?thesis by (auto simp: check_win_def)
qed

lemma reveal_hidden_le:
  "hidden (snd (reveal depth g r c)) \<le> hidden g"
  "hidden (snd (reveal_neighbors depth g ns)) \<le> hidden g"
proof (induct depth g r c and depth g ns rule: reveal_reveal_neighbors.induct)
  case (1 depth g r c)
  show ?case
  proof (cases rule: reveal_cases[where depth=depth and g=g and r=r and c=c])
    case noop
    then show ?thesis by simp
  next
    case (error e)
    then show ?thesis by simp
  next
    case (mine vb)
    with hidden_mark_le[OF mine(2,4)] show ?thesis by (simp add: hidden_def)
  next
    case (number k vb)
    with hidden_mark_le[OF number(2,4)] show ?thesis by simp
  next
    case (zero vb)
    let ?g1 = "g\<lparr>visible_board := vb\<rparr>"
    let ?res = "reveal_neighbors depth ?g1 (get_neighbors ?g1 r c)"
    have le1: "hidden ?g1 \<le> hidden g" by (rule hidden_mark_le[OF zero(2,4)])
    show ?thesis
    proof (cases "depth = 0")
      case True
      with le1 zero(5) show ?thesis by simp
    next
      case False
      from "1"[OF zero(1,2) _ zero(3) _ _ _ False] zero(4)
      have "hidden (snd ?res) \<le> hidden ?g1" by simp
      with le1 have *: "hidden (snd ?res) \<le> hidden g" by simp
      show ?thesis
      proof (cases ?res)
        case (Pair x g')
        with * False zero(5) show ?thesis by (cases x) simp_all
      qed
    qed
  qed
next
  case (2 depth g)
  then show ?case by simp
next
  case (3 depth g nr nc rest)
  show ?case
  proof (cases rule: reveal_neighbors_cases[where depth=depth and g=g and nr=nr and nc=nc
                                              and rest=rest])
    case (error e)
    then show ?thesis by simp
  next
    case (skip v)
    with "3"(3) show ?thesis by simp
  next
    case overflow
    then show ?thesis by simp
  next
    case (stop e g')
    with "3"(1) show ?thesis by simp
  next
    case (continue g')
    with "3"(1) have "hidden g' \<le> hidden g" by simp
    moreover from "3"(2)[OF continue(1) refl continue(2) continue(3)[symmetric] refl]
    have "hidden (snd (reveal_neighbors depth g' rest)) \<le> hidden g'" .
    ultimately show ?thesis using continue(4) by simp
  qed
qed

text \<open>On a cell of the grid the only exception is the one of the stack.\<close>

lemma reveal_no_index_error:
  "shaped g \<Longrightarrow> in_range g r c \<Longrightarrow>
     fst (reveal depth g r c) = None \<or> fst (reveal depth g r c) = Some RecursionError"
  "shaped g \<Longrightarrow> (\<And>i j. (i, j) \<in> set ns \<Longrightarrow> in_range g i j) \<Longrightarrow>
     fst (reveal_neighbors depth g ns) = None \<or>
     fst (reveal_neighbors depth g ns) = Some RecursionError"
proof (induct depth g r c and depth g ns rule: reveal_reveal_neighbors.induct)
  case (1 depth g r c)
  note sh = \<open>shaped g\<close> and rng = \<open>in_range g r c\<close>
  show ?case
  proof (cases rule: reveal_cases[where depth=depth and g=g and r=r and c=c])
    case noop
    then show ?thesis by simp
  next
    case (error e)
    with vis_get[OF sh rng] board_get[OF sh rng] show ?thesis by auto
  next
    case (mine vb)
    then show ?thesis by simp
  next
    case (number k vb)
    with frame_shaped[OF frame_mark sh] show ?thesis by (simp add: check_win_ok)
  next
    case (zero vb)
    let ?g1 = "g\<lparr>visible_board := vb\<rparr>"
    let ?res = "reveal_neighbors depth ?g1 (get_neighbors ?g1 r c)"
    have sh1: "shaped ?g1" using frame_shaped[OF frame_mark sh] zero(4) by blast
    show ?thesis
    proof (cases "depth = 0")
      case True
      with zero(5) show ?thesis by simp
    next
      case False
      have "fst ?res = None \<or> fst ?res = Some RecursionError"
        by (rule "1"(1)[OF zero(1,2) _ zero(3) _ _ _ False sh1])
           (use zero(4) in \<open>auto dest: get_neighbors_in_range\<close>)
      moreover have "shaped (snd ?res)" by (rule frame_shaped[OF frame_reveal(2) sh1])
      ultimately show ?thesis using zero(5) False
        by (cases ?res) (auto simp: check_win_ok)
    qed
  qed
next
  case (2 depth g)
  then show ?case by simp
next
  case (3 depth g nr nc rest)
  note sh = \<open>shaped g\<close>
  have rng: "in_range g nr nc" by (rule "3"(5)) simp
  have rest: "in_range g i j" if "(i, j) \<in> set rest" for i j by (rule "3"(5)) (use that in simp)
  show ?case
  proof (cases rule: reveal_neighbors_cases[where depth=depth and g=g and nr=nr and nc=nc
                                              and rest=rest])
    case (error e)
    with vis_get[OF sh rng] show ?thesis by simp
  next
    case (skip v)
    with "3"(3)[OF skip(1,2) sh] rest show ?thesis by simp
  next
    case overflow
    then show ?thesis by simp
  next
    case (stop e g')
    with "3"(1)[OF stop(1) refl stop(2) sh rng] show ?thesis by simp
  next
    case (continue g')
    have fr: "frame g g'" using frame_reveal(1)[of g "depth - 1" nr nc] continue(3) by simp
    have "fst (reveal_neighbors depth g' rest) = None \<or>
          fst (reveal_neighbors depth g' rest) = Some RecursionError"
      by (rule "3"(2)[OF continue(1) refl continue(2) continue(3)[symmetric] refl
                        frame_shaped[OF fr sh]])
         (simp add: frame_in_range[OF fr] rest)
    with continue(4) show ?thesis by simp
  qed
qed

text \<open>A nested call that goes on marks a hidden cell first: with a frame for every hidden
  cell the stack is never exhausted.\<close>

lemma reveal_ok:
  "shaped g \<Longrightarrow> in_range g r c \<Longrightarrow> hidden g \<le> depth \<Longrightarrow> fst (reveal depth g r c) = None"
  "shaped g \<Longrightarrow> (\<And>i j. (i, j) \<in> set ns \<Longrightarrow> in_range g i j) \<Longrightarrow> hidden g < depth \<Longrightarrow>
     fst (reveal_neighbors depth g ns) = None"
proof (induct depth g r c and depth g ns rule: reveal_reveal_neighbors.induct)
  case (1 depth g r c)
  note sh = \<open>shaped g\<close> and rng = \<open>in_range g r c\<close> and dp = \<open>hidden g \<le> depth\<close>
  show ?case
  proof (cases rule: reveal_cases[where depth=depth and g=g and r=r and c=c])
    case noop
    then show ?thesis by simp
  next
    case (error e)
    with vis_get[OF sh rng] board_get[OF sh rng] show ?thesis by auto
  next
    case (mine vb)
    then show ?thesis by simp
  next
    case (number k vb)
    from hidden_mark[OF number(2,4)] dp have "depth \<noteq> 0" by simp
    with number frame_shaped[OF frame_mark sh] show ?thesis by (simp add: check_win_ok)
  next
    case (zero vb)
    let ?g1 = "g\<lparr>visible_board := vb\<rparr>"
    let ?res = "reveal_neighbors depth ?g1 (get_neighbors ?g1 r c)"
    have sh1: "shaped ?g1" using frame_shaped[OF frame_mark sh] zero(4) by blast
    from hidden_mark[OF zero(2,4)] dp have lt: "hidden ?g1 < depth" by simp
    then have d0: "depth \<noteq> 0" by simp
    have "fst ?res = None"
      by (rule "1"(1)[OF zero(1,2) _ zero(3) _ _ _ d0 sh1])
         (use zero(4) lt in \<open>auto dest: get_neighbors_in_range\<close>)
    moreover have "shaped (snd ?res)" by (rule frame_shaped[OF frame_reveal(2) sh1])
    ultimately show ?thesis using zero(5) d0
      by (cases ?res) (auto simp: check_win_ok)
  qed
next
  case (2 depth g)
  then show ?case by simp
next
  case (3 depth g nr nc rest)
  note sh = \<open>shaped g\<close> and dp = \<open>hidden g < depth\<close>
  have rng: "in_range g nr nc" by (rule "3"(5)) simp
  have rest: "in_range g i j" if "(i, j) \<in> set rest" for i j by (rule "3"(5)) (use that in simp)
  show ?case
  proof (cases rule: reveal_neighbors_cases[where depth=depth and g=g and nr=nr and nc=nc
                                              and rest=rest])
    case (error e)
    with vis_get[OF sh rng] show ?thesis by simp
  next
    case (skip v)
    with "3"(3)[OF skip(1,2) sh _ dp] rest show ?thesis by simp
  next
    case overflow
    with dp show ?thesis by simp
  next
    case (stop e g')
    from dp have "hidden g \<le> depth - 1" by simp
    with "3"(1)[OF stop(1) refl stop(2) sh rng] stop(3) show ?thesis by simp
  next
    case (continue g')
    have fr: "frame g g'" using frame_reveal(1)[of g "depth - 1" nr nc] continue(3) by simp
    have "hidden g' \<le> hidden g"
      using reveal_hidden_le(1)[of "depth - 1" g nr nc] continue(3) by simp
    with dp have dp': "hidden g' < depth" by simp
    have "fst (reveal_neighbors depth g' rest) = None"
      by (rule "3"(2)[OF continue(1) refl continue(2) continue(3)[symmetric] refl
                        frame_shaped[OF fr sh] _ dp'])
         (simp add: frame_in_range[OF fr] rest)
    with continue(4) show ?thesis by simp
  qed
qed

subsection \<open>The cascade stays off the hazards\<close>

lemma counts_ok_iff:
  "counts_ok g \<longleftrightarrow>
     (\<forall>r c k. in_range g r c \<longrightarrow> grid_get (board g) r c = Inr (Count k)
                \<longrightarrow> k = adjacent_mines g r c)"
  unfolding counts_ok_def list_all_iff set_all_cells
  by (auto split: sum.splits cell.splits)

lemma zero_neighbors_safe:
  assumes "counts_ok g" "in_range g r c" "grid_get (board g) r c = Inr (Count 0)"
    and "(i, j) \<in> set (get_neighbors g r c)"
  shows "grid_get (board g) i j \<noteq> Inr Mine"
proof
  assume "grid_get (board g) i j = Inr Mine"
  with assms(4) have "(i, j) \<in> set (filter (\<lambda>(i, j). grid_get (board g) i j = Inr Mine)
                                   (get_neighbors g r c))" by simp
  then have "adjacent_mines g r c \<noteq> 0"
    unfolding adjacent_mines_def by (metis length_0_conv empty_iff list.set(1))
  with assms(1-3) show False by (auto simp: counts_ok_iff)
qed

lemma frame_adjacent_mines:
  assumes "frame g g'"
  shows "adjacent_mines g' r c = adjacent_mines g r c"
  using assms frame_get_neighbors[OF assms] by (simp add: adjacent_mines_def frame_def)

lemma frame_counts_ok:
  assumes "frame g g'" "counts_ok g"
  shows "counts_ok g'"
  using assms(2) frame_in_range[OF assms(1)] frame_adjacent_mines[OF assms(1)] assms(1)
  by (simp add: counts_ok_iff frame_def)

lemma safe_step_refl [simp]: "safe_step g g"
  by (simp add: safe_step_def)

lemma safe_step_trans:
  "safe_step g g' \<Longrightarrow> safe_step g' g'' \<Longrightarrow> frame g g' \<Longrightarrow> frame g' g'' \<Longrightarrow> safe_step g g''"
  unfolding safe_step_def frame_def in_range_def by auto

lemma safe_step_check_win: "safe_step g (snd (check_win g))"
  by (simp add: safe_step_def check_win_def mine_revealed_def split: sum.splits)

lemma grid_set_keeps_absent:
  assumes "grid_set g r c s = Inr g'" "x \<noteq> s" "list_ex (\<lambda>row. x \<in> set row) g'"
  shows "list_ex (\<lambda>row. x \<in> set row) g"
proof -
  let ?i = "pos g r"
  let ?j = "pos (g ! ?i) c"
  from grid_set_InrD[OF assms(1)]
  have i: "?i < length g" and g': "g' = g[?i := (g ! ?i)[?j := s]]" by auto
  from assms(3) obtain row where row: "row \<in> set g'" "x \<in> set row"
    by (auto simp: list_ex_iff)
  from row(1) have "row \<in> insert ((g ! ?i)[?j := s]) (set g)"
    unfolding g' using set_update_subset_insert by fast
  then consider "row \<in> set g" | "row = (g ! ?i)[?j := s]" by blast
  then show ?thesis
  proof cases
    case 1
    with row(2) show ?thesis by (auto simp: list_ex_iff)
  next
    case 2
    with row(2) have "x \<in> insert s (set (g ! ?i))"
      using set_update_subset_insert by fast
    with assms(2) have "x \<in> set (g ! ?i)" by simp
    with i show ?thesis by (auto simp: list_ex_iff)
  qed
qed

lemma safe_step_mark:
  assumes "shaped g" "in_range g r c" "grid_get (board g) r c = Inr (Count k)"
    and "grid_set (visible_board g) r c (str_nat k) = Inr vb"
  shows "safe_step g (g\<lparr>visible_board := vb\<rparr>)"
proof -
  have "grid_get vb i j = grid_get (visible_board g) i j"
    if "in_range g i j" "grid_get (board g) i j = Inr Mine" for i j
    using vis_get_set[OF assms(1,2) that(1) assms(4)] that(2) assms(3) by auto
  moreover have "mine_revealed (g\<lparr>visible_board := vb\<rparr>) \<longrightarrow> mine_revealed g"
    using grid_set_keeps_absent[OF assms(4), of "''M''"] str_nat_not_marker(3)[of k]
    by (auto simp: mine_revealed_def)
  ultimately show ?thesis by (simp add: safe_step_def)
qed

lemma reveal_safe:
  "shaped g \<Longrightarrow> counts_ok g \<Longrightarrow> in_range g r c \<Longrightarrow> grid_get (board g) r c \<noteq> Inr Mine \<Longrightarrow>
     safe_step g (snd (reveal depth g r c))"
  "shaped g \<Longrightarrow> counts_ok g \<Longrightarrow>
     (\<And>i j. (i, j) \<in> set ns \<Longrightarrow> in_range g i j \<and> grid_get (board g) i j \<noteq> Inr Mine) \<Longrightarrow>
     safe_step g (snd (reveal_neighbors depth g ns))"
proof (induct depth g r c and depth g ns rule: reveal_reveal_neighbors.induct)
  case (1 depth g r c)
  note sh = \<open>shaped g\<close> and ok = \<open>counts_ok g\<close> and rng = \<open>in_range g r c\<close>
  show ?case
  proof (cases rule: reveal_cases[where depth=depth and g=g and r=r and c=c])
    case noop
    then show ?thesis by simp
  next
    case (error e)
    then show ?thesis by simp
  next
    case (mine vb)
    with "1.prems"(4) show ?thesis by simp
  next
    case (number k vb)
    let ?g1 = "g\<lparr>visible_board := vb\<rparr>"
    have s1: "safe_step g ?g1" by (rule safe_step_mark[OF sh rng number(3,4)])
    from safe_step_trans[OF s1 safe_step_check_win frame_mark[OF number(4)] frame_check_win]
    show ?thesis using number(5) s1 by simp
  next
    case (zero vb)
    let ?g1 = "g\<lparr>visible_board := vb\<rparr>"
    let ?res = "reveal_neighbors depth ?g1 (get_neighbors ?g1 r c)"
    have fr1: "frame g ?g1" by (rule frame_mark[OF zero(4)])
    have s1: "safe_step g ?g1" by (rule safe_step_mark[OF sh rng zero(3,4)])
    show ?thesis
    proof (cases "depth = 0")
      case True
      with s1 zero(5) show ?thesis by simp
    next
      case False
      have "safe_step ?g1 (snd ?res)"
      proof (rule "1.hyps"[OF zero(1,2) _ zero(3) _ _ _ False frame_shaped[OF fr1 sh]
                             frame_counts_ok[OF fr1 ok]], goal_cases)
        case (5 i j)
        then have nb: "(i, j) \<in> set (get_neighbors g r c)" by (simp add: get_neighbors_def)
        from get_neighbors_in_range[OF nb] zero_neighbors_safe[OF ok rng zero(3) nb]
        show ?case by (simp add: in_range_def)
      qed (use zero(4) in simp_all)
      from safe_step_trans[OF s1 this fr1 frame_reveal(2)]
      have s2: "safe_step g (snd ?res)" .
      have fr2: "frame g (snd ?res)" by (rule frame_trans[OF fr1 frame_reveal(2)])
      show ?thesis
      proof (cases ?res)
        case (Pair x g')
        with s2 fr2 zero(5) False
          safe_step_trans[OF _ safe_step_check_win _ frame_check_win, of g g']
        show ?thesis by (cases x) simp_all
      qed
    qed
  qed
next
  case (2 depth g)
  then show ?case by simp
next
  case (3 depth g nr nc rest)
  note sh = \<open>shaped g\<close> and ok = \<open>counts_ok g\<close>
  have hd: "in_range g nr nc" "grid_get (board g) nr nc \<noteq> Inr Mine"
    using "3.prems"(3)[of nr nc] by simp_all
  have tl: "in_range g i j \<and> grid_get (board g) i j \<noteq> Inr Mine" if "(i, j) \<in> set rest" for i j
    using "3.prems"(3)[of i j] that by simp
  show ?case
  proof (cases rule: reveal_neighbors_cases[where depth=depth and g=g and nr=nr and nc=nc
                                              and rest=rest])
    case (error e)
    then show ?thesis by simp
  next
    case (skip v)
    with "3.hyps"(3)[OF skip(1,2) sh ok] tl show ?thesis by simp
  next
    case overflow
    then show ?thesis by simp
  next
    case (stop e g')
    with "3.hyps"(1)[OF stop(1) refl stop(2) sh ok hd] show ?thesis by simp
  next
    case (continue g')
    have fr: "frame g g'" using frame_reveal(1)[of g "depth - 1" nr nc] continue(3) by simp
    have s1: "safe_step g g'"
      using "3.hyps"(1)[OF continue(1) refl continue(2) sh ok hd] continue(3) by simp
    have "safe_step g' (snd (reveal_neighbors depth g' rest))"
      by (rule "3.hyps"(2)[OF continue(1) refl continue(2) continue(3)[symmetric] refl
                frame_shaped[OF fr sh] frame_counts_ok[OF fr ok]])
         (use tl fr in \<open>simp add: frame_def in_range_def\<close>)
    from safe_step_trans[OF s1 this fr frame_reveal(2)] continue(4)
    show ?thesis by simp
  qed
qed

subsection \<open>Construction\<close>

lemma length_py_range [simp]: "length (py_range n) = nat n"
  by (simp add: py_range_def)

lemma new_game_shaped: "shaped (new_game rws cls mines)"
  by (simp add: shaped_def new_game_def comp_def map_replicate_const)

lemma new_game_fields [simp]:
  "rows (new_game rws cls mines) = rws" "cols (new_game rws cls mines) = cls"
  "num_mines (new_game rws cls mines) = mines"
  "\<not> game_over (new_game rws cls mines)" "\<not> win (new_game rws cls mines)"
  by (simp_all add: new_game_def)

lemma new_game_cells:
  assumes "in_range (new_game rws cls mines) r c"
  shows "grid_get (board (new_game rws cls mines)) r c = Inr (Count 0)"
    and "grid_get (visible_board (new_game rws cls mines)) r c = Inr '' ''"
proof -
  from assms have r: "nat r < nat rws" and c: "nat c < nat cls"
    by (auto simp: in_range_def)
  show "grid_get (board (new_game rws cls mines)) r c = Inr (Count 0)"
    unfolding board_get[OF new_game_shaped assms] using r c by (simp add: new_game_def)
  show "grid_get (visible_board (new_game rws cls mines)) r c = Inr '' ''"
    unfolding vis_get[OF new_game_shaped assms] using r c by (simp add: new_game_def)
qed

lemma board_frame_refl [simp]: "board_frame g g"
  by (simp add: board_frame_def)

lemma board_frame_trans: "board_frame g g' \<Longrightarrow> board_frame g' g'' \<Longrightarrow> board_frame g g''"
  by (simp add: board_frame_def)

lemma board_frame_set:
  "grid_set (board g) r c v = Inr b \<Longrightarrow> board_frame g (g\<lparr>board := b\<rparr>)"
  by (simp add: board_frame_def grid_set_shape)

lemma board_frame_shaped: "board_frame g g' \<Longrightarrow> shaped g \<Longrightarrow> shaped g'"
  by (simp add: board_frame_def shaped_def)

lemma board_frame_in_range: "board_frame g g' \<Longrightarrow> in_range g' r c = in_range g r c"
  by (simp add: board_frame_def in_range_def)

lemma place_mines_frame:
  "place_mines g mines_placed draws = Some (Inr g') \<Longrightarrow> board_frame g g'"
proof (induction g mines_placed draws rule: place_mines.induct)
  case (1 g mines_placed draws)
  show ?case
  proof (cases "mines_placed < num_mines g")
    case False
    with "1.prems" show ?thesis by (simp add: place_mines.simps)
  next
    case True
    with "1.prems" obtain x y draws2 where d: "draws = x # y # draws2"
      and r: "\<not> rows g - 1 < 0" and c: "\<not> cols g - 1 < 0"
      by (subst (asm) place_mines.simps) (auto split: if_splits list.splits)
    let ?r = "randint 0 (rows g - 1) x" and ?c = "randint 0 (cols g - 1) y"
    from "1.prems" True d r c obtain v where v: "grid_get (board g) ?r ?c = Inr v"
      by (subst (asm) place_mines.simps) (auto split: sum.splits)
    show ?thesis
    proof (cases "v = Mine")
      case vm: True
      with "1.prems" True d r c v have "place_mines g mines_placed draws2 = Some (Inr g')"
        by (subst (asm) place_mines.simps) simp
      from "1.IH"(2)[OF _ r d c refl v _ this] True vm show ?thesis by simp
    next
      case vm: False
      with "1.prems" True d r c v obtain b where b: "grid_set (board g) ?r ?c Mine = Inr b"
        and rest: "place_mines (g\<lparr>board := b\<rparr>) (mines_placed + 1) draws2 = Some (Inr g')"
        by (subst (asm) place_mines.simps) (auto split: sum.splits)
      from "1.IH"(1)[OF _ r d c refl v vm b rest] True
      have "board_frame (g\<lparr>board := b\<rparr>) g'" by simp
      with board_frame_set[OF b] show ?thesis by (rule board_frame_trans)
    qed
  qed
qed

lemma count_adjacent_eq:
  "count_adjacent b ns k = Inr n \<Longrightarrow>
     n = k + length (filter (\<lambda>(i, j). grid_get b i j = Inr Mine) ns)"
proof (induction ns arbitrary: k)
  case Nil
  then show ?case by simp
next
  case (Cons x ns)
  obtain i j where x: "x = (i, j)" by (cases x)
  from Cons.prems x obtain v where v: "grid_get b i j = Inr v"
    by (auto split: sum.splits)
  with Cons.prems x have "count_adjacent b ns (if v = Mine then k + 1 else k) = Inr n" by simp
  from Cons.IH[OF this] v x show ?case by (auto split: if_splits)
qed

lemma count_adjacent_ok:
  "(\<And>i j. (i, j) \<in> set ns \<Longrightarrow> \<exists>v. grid_get b i j = Inr v) \<Longrightarrow>
     \<exists>n. count_adjacent b ns k = Inr n"
proof (induction ns arbitrary: k)
  case Nil
  then show ?case by simp
next
  case (Cons x ns)
  obtain i j where x: "x = (i, j)" by (cases x)
  from Cons.prems[of i j] x obtain v where v: "grid_get b i j = Inr v" by auto
  have "\<exists>n. count_adjacent b ns k' = Inr n" for k'
    by (rule Cons.IH) (use Cons.prems in auto)
  with v x show ?case by simp
qed

lemma board_get_set:
  assumes "shaped g" "in_range g r c" "in_range g r' c'"
    and "grid_set (board g) r c v = Inr b"
  shows "grid_get b r' c' = (if r' = r \<and> c' = c then Inr v else grid_get (board g) r' c')"
proof -
  have n: "map length (board g) = replicate (nat (rows g)) (nat (cols g))"
    using assms(1) by (simp add: shaped_def)
  have rc: "0 \<le> r" "r < int (nat (rows g))" "0 \<le> c" "c < int (nat (cols g))"
    and rc': "0 \<le> r'" "r' < int (nat (rows g))" "0 \<le> c'" "c' < int (nat (cols g))"
    using assms(2,3) by (auto simp: in_range_def)
  from assms(4) grid_set_in[OF n rc, of v]
  have b: "b = (board g)[nat r := (board g ! nat r)[nat c := v]]" by simp
  show ?thesis unfolding b by (rule grid_get_update[OF n rc rc'])
qed

lemma adjacent_mines_cong:
  assumes "rows g' = rows g" "cols g' = cols g"
    and "\<And>i j. in_range g i j \<Longrightarrow>
           (grid_get (board g') i j = Inr Mine) = (grid_get (board g) i j = Inr Mine)"
  shows "adjacent_mines g' r c = adjacent_mines g r c"
proof -
  have nb: "get_neighbors g' r c = get_neighbors g r c"
    using assms(1,2) by (simp add: get_neighbors_def)
  have "filter (\<lambda>(i, j). grid_get (board g') i j = Inr Mine) (get_neighbors g r c)
      = filter (\<lambda>(i, j). grid_get (board g) i j = Inr Mine) (get_neighbors g r c)"
    by (rule filter_cong[OF refl]) (use assms(3) get_neighbors_in_range in auto)
  then show ?thesis by (simp add: adjacent_mines_def nb)
qed

lemma calculate_cells_good:
  assumes "shaped g" "\<And>r c. (r, c) \<in> set cells \<Longrightarrow> in_range g r c"
    and "\<And>r c. (r, c) \<in> D \<Longrightarrow> in_range g r c"
    and "good g D" "calculate_cells g cells = Inr g'"
  shows "board_frame g g' \<and> good g' (D \<union> set cells)"
  using assms
proof (induction cells arbitrary: g D)
  case Nil
  then show ?case by simp
next
  case (Cons x cells)
  obtain r c where x: "x = (r, c)" by (cases x)
  have rng: "in_range g r c" using Cons.prems(2)[of r c] x by simp
  have rest: "in_range g i j" if "(i, j) \<in> set cells" for i j
    using Cons.prems(2)[of i j] that by simp
  from Cons.prems(5) x obtain v where v: "grid_get (board g) r c = Inr v"
    by (auto split: sum.splits)
  have D': "D \<union> set (x # cells) = (insert (r, c) D) \<union> set cells" using x by auto
  show ?case
  proof (cases "v = Mine")
    case True
    with Cons.prems(5) x v have run: "calculate_cells g cells = Inr g'" by simp
    have "good g (insert (r, c) D)"
      using Cons.prems(4) v True by (auto simp: good_def)
    from Cons.IH[OF Cons.prems(1) rest _ this run] Cons.prems(3) rng
    show ?thesis unfolding D' by auto
  next
    case False
    with Cons.prems(5) x v obtain n b
      where n: "count_adjacent (board g) (get_neighbors g r c) 0 = Inr n"
        and b: "grid_set (board g) r c (Count n) = Inr b"
        and run: "calculate_cells (g\<lparr>board := b\<rparr>) cells = Inr g'"
      by (auto split: sum.splits)
    let ?g1 = "g\<lparr>board := b\<rparr>"
    have fr: "board_frame g ?g1" by (rule board_frame_set[OF b])
    have sh1: "shaped ?g1" by (rule board_frame_shaped[OF fr Cons.prems(1)])
    have rng1: "in_range ?g1 i j = in_range g i j" for i j by (simp add: in_range_def)
    have get1: "grid_get (board ?g1) i j
                = (if i = r \<and> j = c then Inr (Count n) else grid_get (board g) i j)"
      if "in_range g i j" for i j
      using board_get_set[OF Cons.prems(1) rng that b] by simp
    have adj: "adjacent_mines ?g1 i j = adjacent_mines g i j" for i j
      by (rule adjacent_mines_cong) (use get1 v False in auto)
    have nadj: "n = adjacent_mines g r c"
      using count_adjacent_eq[OF n] by (simp add: adjacent_mines_def)
    have "good ?g1 (insert (r, c) D)"
      unfolding good_def
    proof (intro ballI, clarify)
      fix i j k
      assume ij: "(i, j) \<in> insert (r, c) D" and k: "grid_get (board ?g1) i j = Inr (Count k)"
      have "in_range g i j" using ij rng Cons.prems(3) by auto
      from get1[OF this] k Cons.prems(4) ij nadj
      show "k = adjacent_mines ?g1 i j" by (auto simp: adj good_def split: if_splits)
    qed
    from Cons.IH[OF sh1 _ _ this run] rest Cons.prems(3) rng
    have "board_frame ?g1 g' \<and> good g' (insert (r, c) D \<union> set cells)"
      by (auto simp: rng1)
    with fr show ?thesis unfolding D' by (auto intro: board_frame_trans)
  qed
qed

lemma calculate_numbers_ok:
  assumes "shaped g" "calculate_numbers g = Inr g'"
  shows "board_frame g g'" "shaped g'" "counts_ok g'"
proof -
  from calculate_cells_good[of g "all_cells g" "{}" g'] assms
  have fr: "board_frame g g'" and gd: "good g' (set (all_cells g))"
    by (auto simp: calculate_numbers_def set_all_cells good_def)
  show "board_frame g g'" by fact
  show "shaped g'" by (rule board_frame_shaped[OF fr assms(1)])
  show "counts_ok g'"
    using gd board_frame_in_range[OF fr]
    by (auto simp: counts_ok_iff good_def set_all_cells)
qed

lemma init_ok:
  assumes "init rws cls mines draws = Some (Inr g)"
  shows "shaped g" "counts_ok g" "rows g = rws" "cols g = cls" "num_mines g = mines"
    "\<not> game_over g" "\<not> win g" "visible_board g = visible_board (new_game rws cls mines)"
proof -
  from assms obtain g1 where pm: "place_mines (new_game rws cls mines) 0 draws = Some (Inr g1)"
    and cn: "calculate_numbers g1 = Inr g"
    by (auto simp: init_def split: option.splits sum.splits)
  have fr1: "board_frame (new_game rws cls mines) g1" by (rule place_mines_frame[OF pm])
  have sh1: "shaped g1" by (rule board_frame_shaped[OF fr1 new_game_shaped])
  note c = calculate_numbers_ok[OF sh1 cn]
  show "shaped g" "counts_ok g" by fact+
  from board_frame_trans[OF fr1 c(1)]
  show "rows g = rws" "cols g = cls" "num_mines g = mines"
    "\<not> game_over g" "\<not> win g" "visible_board g = visible_board (new_game rws cls mines)"
    by (simp_all add: board_frame_def)
qed

subsection \<open>Sequences of calls\<close>

lemma in_progress_iff: "outcome_of g = InProgress \<longleftrightarrow> \<not> game_over g"
  by (simp add: outcome_of_def)

lemma reveal_game_over: "game_over g \<Longrightarrow> reveal d g r c = (None, g)"
  by (subst reveal.simps) simp

lemma flag_game_over: "game_over g \<Longrightarrow> flag g r c = (None, g)"
  by (simp add: flag_def)

lemma run_game_over: "game_over g \<Longrightarrow> run depth g calls = g"
proof (induction calls)
  case Nil
  then show ?case by simp
next
  case (Cons k calls)
  then show ?case by (cases k) (simp_all add: reveal_game_over flag_game_over)
qed

lemma frame_do_call: "frame g (snd (do_call depth g k))"
  by (cases k) (simp_all add: frame_reveal frame_flag)

lemma frame_run: "frame g (run depth g calls)"
proof (induction calls arbitrary: g)
  case Nil
  then show ?case by simp
next
  case (Cons k calls)
  from frame_trans[OF frame_do_call Cons.IH] show ?case by simp
qed

lemma game_after_ok:
  assumes "game_after depth rws cls mines draws calls = Some g"
  shows "shaped g" "counts_ok g" "win g \<longrightarrow> game_over g"
    "rows g = rws" "cols g = cls" "num_mines g = mines"
proof -
  from assms obtain g0 where i: "init rws cls mines draws = Some (Inr g0)" and g: "g = run depth g0 calls"
    by (auto simp: game_after_def split: option.splits sum.splits)
  note ok = init_ok[OF i]
  have fr: "frame g0 g" unfolding g by (rule frame_run)
  show "shaped g" by (rule frame_shaped[OF fr ok(1)])
  show "counts_ok g" by (rule frame_counts_ok[OF fr ok(2)])
  show "win g \<longrightarrow> game_over g" "rows g = rws" "cols g = cls" "num_mines g = mines"
    using fr ok by (simp_all add: frame_def)
qed

subsection \<open>Revealing a hazard\<close>

text \<open>
  Claim C4. In a game in progress, \<open>reveal(r, c)\<close> on a hidden hazard cell of the grid,
  with any number of frames left, returns without raising, writes \<open>'M'\<close> into that one cell and sets \<open>game_over\<close>: the
  outcome is \<open>Lost\<close>, \<open>win\<close> stays unset, every other cell of the visibility grid and the
  whole board are as before. The resulting state is given in full.
\<close>

theorem reveal_hazard:
  assumes "game_after depth rws cls mines draws calls = Some g"
    and "outcome_of g = InProgress" and "in_range g r c"
    and "grid_get (board g) r c = Inr Mine"
    and "grid_get (visible_board g) r c = Inr '' ''"
  shows "reveal d g r c =
           (None, g\<lparr>game_over := True,
                     visible_board := (visible_board g)[nat r := (visible_board g ! nat r)[nat c := ''M'']]\<rparr>)
         \<and> grid_get (visible_board (snd (reveal d g r c))) r c = Inr ''M''
         \<and> (\<forall>r' c'. in_range g r' c' \<and> (r', c') \<noteq> (r, c) \<longrightarrow>
               grid_get (visible_board (snd (reveal d g r c))) r' c' = grid_get (visible_board g) r' c')
         \<and> outcome_of (snd (reveal d g r c)) = Lost
         \<and> \<not> win (snd (reveal d g r c))
         \<and> board (snd (reveal d g r c)) = board g"
proof -
  note ok = game_after_ok[OF assms(1)]
  from assms(2) have go: "\<not> game_over g" by (simp add: in_progress_iff)
  with ok(3) have nw: "\<not> win g" by blast
  let ?vb = "(visible_board g)[nat r := (visible_board g ! nat r)[nat c := ''M'']]"
  have set: "grid_set (visible_board g) r c ''M'' = Inr ?vb" by (rule vis_set[OF ok(1) assms(3)])
  have res: "reveal d g r c = (None, g\<lparr>game_over := True, visible_board := ?vb\<rparr>)"
    using go assms(4,5) set by (subst reveal.simps) simp
  have get: "grid_get ?vb r' c' = (if r' = r \<and> c' = c then Inr ''M'' else grid_get (visible_board g) r' c')"
    if "in_range g r' c'" for r' c'
    by (rule vis_get_set[OF ok(1) assms(3) that set])
  show ?thesis
    using res get[OF assms(3)] get nw by (auto simp: outcome_of_def)
qed

text \<open>Claim C4 on the 3 x 3 engine with its mine in the centre, after \<open>reveal(0, 0)\<close>
  and \<open>flag(2, 2)\<close>: \<open>reveal(1, 1)\<close> loses and leaves the flag on \<open>(2, 2)\<close>.\<close>

theorem reveal_hazard_witness:
  "game_after 1000 3 3 1 [4, 4] [Reveal 0 0, Flag 2 2] = Some played_3x3
   \<and> outcome_of played_3x3 = InProgress \<and> in_range played_3x3 1 1
   \<and> grid_get (board played_3x3) 1 1 = Inr Mine
   \<and> grid_get (visible_board played_3x3) 1 1 = Inr '' ''
   \<and> grid_get (visible_board (snd (reveal 1000 played_3x3 1 1))) 1 1 = Inr ''M''
   \<and> grid_get (visible_board (snd (reveal 1000 played_3x3 1 1))) 2 2 = Inr ''F''
   \<and> outcome_of (snd (reveal 1000 played_3x3 1 1)) = Lost
   \<and> \<not> win (snd (reveal 1000 played_3x3 1 1))"
proof -
  have h1: "game_after 1000 3 3 1 [4, 4] [Reveal 0 0, Flag 2 2] = Some played_3x3" by code_simp
  have h2: "outcome_of played_3x3 = InProgress" by code_simp
  have h3: "in_range played_3x3 1 1" by code_simp
  have h4: "grid_get (board played_3x3) 1 1 = Inr Mine" by code_simp
  have h5: "grid_get (visible_board played_3x3) 1 1 = Inr '' ''" by code_simp
  have h6: "in_range played_3x3 2 2 \<and> (2, 2) \<noteq> (1::int, 1::int)" by code_simp
  have h7: "grid_get (visible_board played_3x3) 2 2 = Inr ''F''" by code_simp
  from reveal_hazard[OF h1 h2 h3 h4 h5] h6 h7
  have "grid_get (visible_board (snd (reveal 1000 played_3x3 1 1))) 1 1 = Inr ''M''
   \<and> grid_get (visible_board (snd (reveal 1000 played_3x3 1 1))) 2 2 = Inr ''F''
   \<and> outcome_of (snd (reveal 1000 played_3x3 1 1)) = Lost
   \<and> \<not> win (snd (reveal 1000 played_3x3 1 1))" by metis
  with h1 h2 h3 h4 h5 show ?thesis by blast
qed

subsection \<open>Terminal states\<close>

text \<open>
  Claim C6. Once \<open>game_over\<close> is set (the outcome is \<open>Won\<close> or \<open>Lost\<close>), \<open>reveal\<close> and
  \<open>flag\<close> return the state they were given, for every pair of coordinates and any
  number of frames left, and so does every sequence of such calls.
\<close>

theorem terminal_absorbing:
  assumes "outcome_of g \<noteq> InProgress"
  shows "reveal d g r c = (None, g) \<and> flag g r c = (None, g) \<and> run depth g calls = g"
proof -
  from assms have "game_over g" by (simp add: in_progress_iff)
  then show ?thesis by (simp add: reveal_game_over flag_game_over run_game_over)
qed

text \<open>Claim C6 on a finished 3 x 3 game.\<close>

theorem terminal_absorbing_witness:
  "outcome_of (played_3x3\<lparr>game_over := True\<rparr>) \<noteq> InProgress
   \<and> reveal 1000 (played_3x3\<lparr>game_over := True\<rparr>) 0 1 = (None, played_3x3\<lparr>game_over := True\<rparr>)
   \<and> flag (played_3x3\<lparr>game_over := True\<rparr>) 0 1 = (None, played_3x3\<lparr>game_over := True\<rparr>)
   \<and> run 1000 (played_3x3\<lparr>game_over := True\<rparr>) [Reveal 0 1, Flag 2 2, Reveal 7 7]
        = played_3x3\<lparr>game_over := True\<rparr>"
proof -
  have h: "outcome_of (played_3x3\<lparr>game_over := True\<rparr>) \<noteq> InProgress" by code_simp
  from terminal_absorbing[OF h, where d=1000 and r=0 and c=1 and depth=1000
      and calls="[Reveal 0 1, Flag 2 2, Reveal 7 7]"] h
  show ?thesis by blast
qed

subsection \<open>Flags\<close>

text \<open>
  Claim C8. On a cell of the grid, \<open>flag\<close> never raises; in a game in progress it turns
  a hidden cell into a flagged one and a flagged cell into a hidden one; on a revealed
  cell or in a finished game it returns the state unchanged. It changes no other cell,
  neither flag of the outcome, nor the board, and a second \<open>flag\<close> on the same cell
  gives back the state before the first.
\<close>

theorem flag_toggle:
  assumes "game_after depth rws cls mines draws calls = Some g" and "in_range g r c"
  shows "fst (flag g r c) = None
     \<and> (outcome_of g = InProgress \<and> grid_get (visible_board g) r c = Inr '' '' \<longrightarrow>
          grid_get (visible_board (snd (flag g r c))) r c = Inr ''F'')
     \<and> (outcome_of g = InProgress \<and> grid_get (visible_board g) r c = Inr ''F'' \<longrightarrow>
          grid_get (visible_board (snd (flag g r c))) r c = Inr '' '')
     \<and> (outcome_of g \<noteq> InProgress \<or>
          (grid_get (visible_board g) r c \<noteq> Inr '' '' \<and> grid_get (visible_board g) r c \<noteq> Inr ''F'') \<longrightarrow>
          snd (flag g r c) = g)
     \<and> (\<forall>r' c'. in_range g r' c' \<and> (r', c') \<noteq> (r, c) \<longrightarrow>
          grid_get (visible_board (snd (flag g r c))) r' c' = grid_get (visible_board g) r' c')
     \<and> game_over (snd (flag g r c)) = game_over g \<and> win (snd (flag g r c)) = win g
     \<and> outcome_of (snd (flag g r c)) = outcome_of g
     \<and> board (snd (flag g r c)) = board g
     \<and> snd (flag (snd (flag g r c)) r c) = g"
proof -
  note ok = game_after_ok[OF assms(1)]
  let ?vis = "visible_board g"
  let ?v = "?vis ! nat r ! nat c"
  have get: "grid_get ?vis r c = Inr ?v" by (rule vis_get[OF ok(1) assms(2)])
  have set: "grid_set ?vis r c s = Inr (?vis[nat r := (?vis ! nat r)[nat c := s]])" for s
    by (rule vis_set[OF ok(1) assms(2)])
  have other: "grid_get (?vis[nat r := (?vis ! nat r)[nat c := s]]) r' c'
               = (if r' = r \<and> c' = c then Inr s else grid_get ?vis r' c')"
    if "in_range g r' c'" for r' c' s
    by (rule vis_get_set[OF ok(1) assms(2) that set])
  have len: "nat r < length ?vis" "nat c < length (?vis ! nat r)"
    using grid_get_InrD[OF get] assms(2) by (auto simp: pos_def in_range_def)
  consider (over) "game_over g" | (hid) "\<not> game_over g" "?v = '' ''"
    | (flg) "\<not> game_over g" "?v = ''F''" | (rev) "\<not> game_over g" "?v \<noteq> '' ''" "?v \<noteq> ''F''"
    by blast
  then show ?thesis
  proof cases
    case over
    then show ?thesis by (simp add: flag_game_over in_progress_iff)
  next
    case hid
    let ?g1 = "g\<lparr>visible_board := ?vis[nat r := (?vis ! nat r)[nat c := ''F'']]\<rparr>"
    have f1: "flag g r c = (None, ?g1)" using hid get set by (simp add: flag_def)
    have sh1: "shaped ?g1" using frame_shaped[OF frame_mark[OF set] ok(1)] .
    have rng1: "in_range ?g1 r c" using assms(2) by (simp add: in_range_def)
    have "flag ?g1 r c = (None, g)"
      using hid vis_get[OF sh1 rng1] vis_set[OF sh1 rng1, of "'' ''"] len
      by (simp add: flag_def list_update_same_conv[THEN iffD2])
    with f1 hid get other[OF assms(2)] other show ?thesis
      by (auto simp: outcome_of_def)
  next
    case flg
    let ?g1 = "g\<lparr>visible_board := ?vis[nat r := (?vis ! nat r)[nat c := '' '']]\<rparr>"
    have f1: "flag g r c = (None, ?g1)" using flg get set by (simp add: flag_def)
    have sh1: "shaped ?g1" using frame_shaped[OF frame_mark[OF set] ok(1)] .
    have rng1: "in_range ?g1 r c" using assms(2) by (simp add: in_range_def)
    have "flag ?g1 r c = (None, g)"
      using flg vis_get[OF sh1 rng1] vis_set[OF sh1 rng1, of "''F''"] len
      by (simp add: flag_def list_update_same_conv[THEN iffD2])
    with f1 flg get other[OF assms(2)] other show ?thesis
      by (auto simp: outcome_of_def)
  next
    case rev
    then have "flag g r c = (None, g)" using get by (simp add: flag_def)
    with rev get show ?thesis by simp
  qed
qed

text \<open>Claim C8 on the cell \<open>(0, 1)\<close> of the 3 x 3 game.\<close>

theorem flag_toggle_witness:
  "game_after 1000 3 3 1 [4, 4] [Reveal 0 0, Flag 2 2] = Some played_3x3
   \<and> in_range played_3x3 0 1
   \<and> outcome_of played_3x3 = InProgress
   \<and> grid_get (visible_board played_3x3) 0 1 = Inr '' ''
   \<and> fst (flag played_3x3 0 1) = None
   \<and> grid_get (visible_board (snd (flag played_3x3 0 1))) 0 1 = Inr ''F''
   \<and> outcome_of (snd (flag played_3x3 0 1)) = outcome_of played_3x3
   \<and> snd (flag (snd (flag played_3x3 0 1)) 0 1) = played_3x3"
proof -
  have h1: "game_after 1000 3 3 1 [4, 4] [Reveal 0 0, Flag 2 2] = Some played_3x3" by code_simp
  have h2: "in_range played_3x3 0 1" by code_simp
  have h3: "outcome_of played_3x3 = InProgress" by code_simp
  have h4: "grid_get (visible_board played_3x3) 0 1 = Inr '' ''" by code_simp
  from flag_toggle[OF h1 h2] h1 h2 h3 h4 show ?thesis by blast
qed

subsection \<open>The cascade\<close>

text \<open>
  Claim C10. \<open>_get_neighbors\<close> returns only coordinates of the grid, whatever it is
  asked, so every nested call of \<open>reveal\<close> is on a cell of the grid; and \<open>reveal\<close> on a
  cell of the grid, with any number \<open>d\<close> of frames left, never raises \<open>IndexError\<close>: it
  returns, or the cascade is cut short by the \<open>RecursionError\<close> of the stack, and with a
  frame for every hidden cell it returns. The neighbours of a cell whose count is 0 are
  no hazards, and a \<open>reveal\<close> that starts on a cell that is no hazard, in a game in
  progress, shows no hazard and does not end in \<open>Lost\<close>, cut short or not.
\<close>

theorem cascade_in_range_and_safe:
  assumes "game_after depth rws cls mines draws calls = Some g" and "in_range g r c"
  shows "(\<forall>g' r' c'. \<forall>(i, j) \<in> set (get_neighbors g' r' c'). in_range g' i j)
     \<and> fst (reveal d g r c) \<noteq> Some IndexError
     \<and> (fst (reveal d g r c) = None \<or> fst (reveal d g r c) = Some RecursionError)
     \<and> (hidden g \<le> d \<longrightarrow> fst (reveal d g r c) = None)
     \<and> (grid_get (board g) r c = Inr (Count 0) \<longrightarrow>
          (\<forall>(i, j) \<in> set (get_neighbors g r c). grid_get (board g) i j \<noteq> Inr Mine))
     \<and> (outcome_of g = InProgress \<and> grid_get (board g) r c \<noteq> Inr Mine \<longrightarrow>
          outcome_of (snd (reveal d g r c)) \<noteq> Lost
          \<and> (mine_revealed (snd (reveal d g r c)) \<longrightarrow> mine_revealed g)
          \<and> (\<forall>i j. in_range g i j \<and> grid_get (board g) i j = Inr Mine \<longrightarrow>
                grid_get (visible_board (snd (reveal d g r c))) i j = grid_get (visible_board g) i j))"
proof -
  note ok = game_after_ok[OF assms(1)]
  have a: "\<forall>g' r' c'. \<forall>(i, j) \<in> set (get_neighbors g' r' c'). in_range g' i j"
    using get_neighbors_in_range by blast
  have b: "fst (reveal d g r c) = None \<or> fst (reveal d g r c) = Some RecursionError"
    by (rule reveal_no_index_error(1)[OF ok(1) assms(2)])
  then have b': "fst (reveal d g r c) \<noteq> Some IndexError" by auto
  have e: "fst (reveal d g r c) = None" if "hidden g \<le> d"
    by (rule reveal_ok(1)[OF ok(1) assms(2) that])
  have c: "\<forall>(i, j) \<in> set (get_neighbors g r c). grid_get (board g) i j \<noteq> Inr Mine"
    if "grid_get (board g) r c = Inr (Count 0)"
    using zero_neighbors_safe[OF ok(2) assms(2) that] by blast
  have d: "outcome_of (snd (reveal d g r c)) \<noteq> Lost
          \<and> (mine_revealed (snd (reveal d g r c)) \<longrightarrow> mine_revealed g)
          \<and> (\<forall>i j. in_range g i j \<and> grid_get (board g) i j = Inr Mine \<longrightarrow>
                grid_get (visible_board (snd (reveal d g r c))) i j = grid_get (visible_board g) i j)"
    if "outcome_of g = InProgress" "grid_get (board g) r c \<noteq> Inr Mine"
  proof -
    from reveal_safe(1)[OF ok(1,2) assms(2) that(2), where depth=d] that(1)
    show ?thesis by (auto simp: safe_step_def outcome_of_def split: if_splits)
  qed
  from a b b' c d e show ?thesis by blast
qed

text \<open>Claim C10 on the 3 x 3 engine with its mine in the corner. With 1000 frames
  \<open>reveal(2, 2)\<close> cascades over the whole grid and returns; with 3 frames the cascade is
  cut short by \<open>RecursionError\<close>, still without a hazard shown and without \<open>Lost\<close>.\<close>

theorem cascade_in_range_and_safe_witness:
  "game_after 1000 3 3 1 [0, 0] [] = Some corner_3x3
   \<and> in_range corner_3x3 2 2
   \<and> grid_get (board corner_3x3) 2 2 = Inr (Count 0)
   \<and> outcome_of corner_3x3 = InProgress
   \<and> hidden corner_3x3 \<le> 1000
   \<and> fst (reveal 1000 corner_3x3 2 2) = None
   \<and> outcome_of (snd (reveal 1000 corner_3x3 2 2)) \<noteq> Lost
   \<and> \<not> mine_revealed (snd (reveal 1000 corner_3x3 2 2))
   \<and> grid_get (visible_board (snd (reveal 1000 corner_3x3 2 2))) 0 0 = Inr '' ''
   \<and> fst (reveal 3 corner_3x3 2 2) = Some RecursionError
   \<and> outcome_of (snd (reveal 3 corner_3x3 2 2)) \<noteq> Lost
   \<and> \<not> mine_revealed (snd (reveal 3 corner_3x3 2 2))"
proof -
  have h1: "game_after 1000 3 3 1 [0, 0] [] = Some corner_3x3" by code_simp
  have h2: "in_range corner_3x3 2 2" by code_simp
  have h3: "grid_get (board corner_3x3) 2 2 = Inr (Count 0)" by code_simp
  have h4: "outcome_of corner_3x3 = InProgress" by code_simp
  have h5: "grid_get (board corner_3x3) 2 2 \<noteq> Inr Mine" by code_simp
  have h6: "\<not> mine_revealed corner_3x3" by code_simp
  have h7: "in_range corner_3x3 0 0 \<and> grid_get (board corner_3x3) 0 0 = Inr Mine" by code_simp
  have h8: "grid_get (visible_board corner_3x3) 0 0 = Inr '' ''" by code_simp
  have h9: "hidden corner_3x3 \<le> 1000" by code_simp
  have h10: "fst (reveal 3 corner_3x3 2 2) = Some RecursionError" by code_simp
  from cascade_in_range_and_safe[OF h1 h2, where d=1000] h4 h5 h6 h7 h8 h9
  have "fst (reveal 1000 corner_3x3 2 2) = None
   \<and> outcome_of (snd (reveal 1000 corner_3x3 2 2)) \<noteq> Lost
   \<and> \<not> mine_revealed (snd (reveal 1000 corner_3x3 2 2))
   \<and> grid_get (visible_board (snd (reveal 1000 corner_3x3 2 2))) 0 0 = Inr '' ''" by metis
  moreover from cascade_in_range_and_safe[OF h1 h2, where d=3] h4 h5 h6
  have "outcome_of (snd (reveal 3 corner_3x3 2 2)) \<noteq> Lost
   \<and> \<not> mine_revealed (snd (reveal 3 corner_3x3 2 2))" by metis
  ultimately show ?thesis using h1 h2 h3 h4 h9 h10 by blast
qed

subsection \<open>Adjacency counts\<close>

lemma adjacent_mines_card:
  "adjacent_mines g r c
     = card {(i, j). \<bar>i - r\<bar> \<le> 1 \<and> \<bar>j - c\<bar> \<le> 1 \<and> (i, j) \<noteq> (r, c) \<and> in_range g i j
                     \<and> grid_get (board g) i j = Inr Mine}"
proof -
  have "adjacent_mines g r c
        = card ({p. (\<lambda>(i, j). grid_get (board g) i j = Inr Mine) p} \<inter> set (get_neighbors g r c))"
    unfolding adjacent_mines_def by (rule distinct_length_filter[OF distinct_get_neighbors])
  also have "{p. (\<lambda>(i, j). grid_get (board g) i j = Inr Mine) p} \<inter> set (get_neighbors g r c)
        = {(i, j). \<bar>i - r\<bar> \<le> 1 \<and> \<bar>j - c\<bar> \<le> 1 \<and> (i, j) \<noteq> (r, c) \<and> in_range g i j
                     \<and> grid_get (board g) i j = Inr Mine}"
    unfolding set_get_neighbors by auto
  finally show ?thesis .
qed

lemma adjacent_mines_le: "adjacent_mines g r c \<le> 8"
  unfolding adjacent_mines_def
  by (rule order_trans[OF length_filter_le length_get_neighbors])

text \<open>
  Claim C7. In a constructed engine the count stored in a cell that is no hazard is the
  number of hazards among the cells at distance at most one in both directions, the cell
  itself excluded and the cells outside the grid left out; it lies between 0 and 8.
  Neither \<open>reveal\<close> nor \<open>flag\<close>, in any state, nor any sequence of them, changes the board.
\<close>

theorem adjacency_counts:
  assumes "init rws cls mines draws = Some (Inr g)" and "in_range g r c"
    and "grid_get (board g) r c = Inr (Count k)"
  shows "k = card {(i, j). \<bar>i - r\<bar> \<le> 1 \<and> \<bar>j - c\<bar> \<le> 1 \<and> (i, j) \<noteq> (r, c) \<and> in_range g i j
                           \<and> grid_get (board g) i j = Inr Mine}
     \<and> k = adjacent_mines g r c \<and> 0 \<le> k \<and> k \<le> 8
     \<and> board (snd (reveal d g' r' c')) = board g'
     \<and> board (snd (flag g' r' c')) = board g'
     \<and> board (run depth g calls) = board g"
proof -
  note ok = init_ok[OF assms(1)]
  from ok(2) assms(2,3) have k: "k = adjacent_mines g r c" by (auto simp: counts_ok_iff)
  moreover have "board (snd (reveal d g' r' c')) = board g'"
    using frame_reveal(1)[where g=g' and depth=d and r=r' and c=c'] by (simp add: frame_def)
  moreover have "board (snd (flag g' r' c')) = board g'"
    using frame_flag[of g' r' c'] by (simp add: frame_def)
  moreover have "board (run depth g calls) = board g"
    using frame_run[where g=g and depth=depth and calls=calls] by (simp add: frame_def)
  ultimately show ?thesis using adjacent_mines_card[of g r c] adjacent_mines_le[of g r c] by simp
qed

text \<open>Claim C7 on the cell \<open>(1, 1)\<close> of the 3 x 3 engine with its mine in the corner.\<close>

theorem adjacency_counts_witness:
  "init 3 3 1 [0, 0] = Some (Inr corner_3x3)
   \<and> in_range corner_3x3 1 1
   \<and> grid_get (board corner_3x3) 1 1 = Inr (Count 1)
   \<and> 1 = card {(i, j). \<bar>i - 1\<bar> \<le> 1 \<and> \<bar>j - 1\<bar> \<le> 1 \<and> (i, j) \<noteq> (1, 1) \<and> in_range corner_3x3 i j
                        \<and> grid_get (board corner_3x3) i j = Inr Mine}
   \<and> 1 = adjacent_mines corner_3x3 1 1
   \<and> board (run 1000 corner_3x3 [Flag 0 0, Reveal 2 2]) = board corner_3x3"
proof -
  have h1: "init 3 3 1 [0, 0] = Some (Inr corner_3x3)" by code_simp
  have h2: "in_range corner_3x3 1 1" by code_simp
  have h3: "grid_get (board corner_3x3) 1 1 = Inr (Count 1)" by code_simp
  from adjacency_counts[OF h1 h2 h3, where depth=1000 and calls="[Flag 0 0, Reveal 2 2]"] h1 h2 h3
  show ?thesis by blast
qed

subsection \<open>Won and lost\<close>

lemma fair_reveal:
  assumes "fair g" "in_range g r c"
  shows "fair (snd (reveal d g r c))"
proof (cases "game_over g")
  case True
  with assms(1) show ?thesis by (simp add: reveal_game_over)
next
  case go: False
  from assms(1) have sh: "shaped g" and ok: "counts_ok g" and nw: "\<not> win g"
    and nm: "\<not> mine_revealed g" using go by (auto simp: fair_def)
  let ?g' = "snd (reveal d g r c)"
  have fr: "frame g ?g'" by (rule frame_reveal)
  have base: "shaped ?g'" "counts_ok ?g'" "win ?g' \<longrightarrow> game_over ?g'"
    using frame_shaped[OF fr sh] frame_counts_ok[OF fr ok] fr nw by (auto simp: frame_def)
  show ?thesis
  proof (cases "grid_get (board g) r c = Inr Mine")
    case False
    from reveal_safe(1)[OF sh ok assms(2) False] nm have "\<not> mine_revealed ?g'"
      by (simp add: safe_step_def)
    with base show ?thesis by (simp add: fair_def)
  next
    case True
    show ?thesis
    proof (cases rule: reveal_cases[where depth=d and g=g and r=r and c=c])
      case noop
      with assms(1) show ?thesis by simp
    next
      case (error e)
      with assms(1) show ?thesis by simp
    next
      case (mine vb)
      with base nw show ?thesis by (simp add: fair_def)
    next
      case (number k vb)
      with True show ?thesis by simp
    next
      case (zero vb)
      with True show ?thesis by simp
    qed
  qed
qed

lemma fair_flag:
  assumes "fair g"
  shows "fair (snd (flag g r c))"
proof -
  let ?g' = "snd (flag g r c)"
  have fr: "frame g ?g'" by (rule frame_flag)
  have flags: "game_over ?g' = game_over g" "win ?g' = win g"
    by (auto simp: flag_def split: sum.splits)
  have "mine_revealed ?g' \<longrightarrow> mine_revealed g"
    using grid_set_keeps_absent[of "visible_board g" r c _ _ "''M''"]
    by (auto simp: flag_def mine_revealed_def split: sum.splits)
  with assms frame_shaped[OF fr] frame_counts_ok[OF fr] flags show ?thesis
    by (auto simp: fair_def)
qed

lemma fair_run:
  "fair g \<Longrightarrow> list_all (call_in_range (rows g) (cols g)) calls \<Longrightarrow> fair (run depth g calls)"
proof (induction calls arbitrary: g)
  case Nil
  then show ?case by simp
next
  case (Cons k calls)
  let ?g1 = "snd (do_call depth g k)"
  have fr: "frame g ?g1" by (rule frame_do_call)
  have "fair ?g1"
    using Cons.prems by (cases k) (auto simp: in_range_def fair_reveal fair_flag)
  moreover have "list_all (call_in_range (rows ?g1) (cols ?g1)) calls"
    using Cons.prems(2) fr by (simp add: frame_def)
  ultimately show ?case using Cons.IH by simp
qed

lemma init_fair:
  assumes "init rws cls mines draws = Some (Inr g)"
  shows "fair g"
proof -
  note ok = init_ok[OF assms]
  have "\<not> mine_revealed g"
    unfolding mine_revealed_def ok(8) by (auto simp: new_game_def list_ex_iff)
  with ok show ?thesis by (simp add: fair_def)
qed

text \<open>
  Claim C9, amended. In a constructed engine, after any sequence of \<open>reveal\<close> and \<open>flag\<close>
  calls whose coordinates all lie in the grid, \<open>win\<close> is not set while a hazard is
  shown; and once a hazard is shown the outcome is \<open>Lost\<close> and no later call, with any
  coordinates, changes the state or sets \<open>win\<close>.
\<close>

theorem won_lost_exclusive:
  assumes "game_after depth rws cls mines draws calls = Some g"
    and "list_all (call_in_range rws cls) calls"
  shows "\<not> (win g \<and> mine_revealed g)
     \<and> (mine_revealed g \<longrightarrow> outcome_of g = Lost \<and> run d g later = g \<and> \<not> win (run d g later))"
proof -
  from assms(1) obtain g0 where i: "init rws cls mines draws = Some (Inr g0)" and g: "g = run depth g0 calls"
    by (auto simp: game_after_def split: option.splits sum.splits)
  have "fair g" unfolding g
    by (rule fair_run[OF init_fair[OF i]]) (use assms(2) init_ok(3,4)[OF i] in simp)
  then show ?thesis by (auto simp: fair_def outcome_of_def run_game_over)
qed

text \<open>Claim C9, amended, on the 3 x 3 game lost by \<open>reveal(1, 1)\<close>.\<close>

theorem won_lost_exclusive_witness:
  "game_after 1000 3 3 1 [4, 4] [Reveal 0 0, Flag 2 2, Reveal 1 1]
     = Some (played_3x3\<lparr>visible_board := [[''1'', '' '', '' ''],
                                           ['' '', ''M'', '' ''],
                                           ['' '', '' '', ''F'']], game_over := True\<rparr>)
   \<and> list_all (call_in_range 3 3) [Reveal 0 0, Flag 2 2, Reveal 1 1]
   \<and> mine_revealed (played_3x3\<lparr>visible_board := [[''1'', '' '', '' ''],
                                           ['' '', ''M'', '' ''],
                                           ['' '', '' '', ''F'']], game_over := True\<rparr>)
   \<and> \<not> win (played_3x3\<lparr>visible_board := [[''1'', '' '', '' ''],
                                           ['' '', ''M'', '' ''],
                                           ['' '', '' '', ''F'']], game_over := True\<rparr>)
   \<and> outcome_of (played_3x3\<lparr>visible_board := [[''1'', '' '', '' ''],
                                           ['' '', ''M'', '' ''],
                                           ['' '', '' '', ''F'']], game_over := True\<rparr>) = Lost"
proof -
  let ?g = "played_3x3\<lparr>visible_board := [[''1'', '' '', '' ''],
                                           ['' '', ''M'', '' ''],
                                           ['' '', '' '', ''F'']], game_over := True\<rparr>"
  have h1: "game_after 1000 3 3 1 [4, 4] [Reveal 0 0, Flag 2 2, Reveal 1 1] = Some ?g" by code_simp
  have h2: "list_all (call_in_range 3 3) [Reveal 0 0, Flag 2 2, Reveal 1 1]" by code_simp
  have h3: "mine_revealed ?g" by code_simp
  from won_lost_exclusive[OF h1 h2] h1 h2 h3 show ?thesis by blast
qed

text \<open>
  Claim C9 as stated fails for a call with a negative coordinate. On the 1 x 3 engine
  with its mine on \<open>(0, 0)\<close>, \<open>reveal(0, -1)\<close> reads the last cell, whose count is 0;
  \<open>_get_neighbors(0, -1)\<close> is \<open>[(0, 0)]\<close>, the cascade reveals the mine there, and the win
  check that follows finds one hidden cell for one mine: \<open>win\<close> is set with the mine shown.
\<close>

theorem won_and_lost_counterexample:
  "game_after 1000 1 3 1 [0, 0] [Reveal 0 (- 1)]
     = Some (game_1x3\<lparr>visible_board := [[''M'', '' '', ''0'']], game_over := True, win := True\<rparr>)
   \<and> win (game_1x3\<lparr>visible_board := [[''M'', '' '', ''0'']], game_over := True, win := True\<rparr>)
   \<and> mine_revealed (game_1x3\<lparr>visible_board := [[''M'', '' '', ''0'']], game_over := True, win := True\<rparr>)"
  by code_simp

subsection \<open>Coordinates outside the grid\<close>

text \<open>
  Claim C2, amended. In a constructed engine with the game in progress, \<open>reveal(r, c)\<close> and
  \<open>flag(r, c)\<close> raise \<open>IndexError\<close> and leave the state as it is whenever \<open>r\<close> is outside
  \<open>[-rows, rows)\<close> or \<open>c\<close> is outside \<open>[-cols, cols)\<close>, with any number of frames left.
\<close>

theorem out_of_range_call:
  assumes "game_after depth rws cls mines draws calls = Some g" and "outcome_of g = InProgress"
    and "r < - rows g \<or> rows g \<le> r \<or> c < - cols g \<or> cols g \<le> c"
  shows "reveal d g r c = (Some IndexError, g) \<and> flag g r c = (Some IndexError, g)"
proof -
  note ok = game_after_ok[OF assms(1)]
  from assms(2) have go: "\<not> game_over g" by (simp add: in_progress_iff)
  have "grid_get (visible_board g) r c = Inl IndexError"
    by (rule grid_get_out[where n="nat (rows g)" and m="nat (cols g)"])
       (use ok(1) assms(3) in \<open>auto simp: shaped_def\<close>)
  with go show ?thesis by (simp add: flag_def reveal.simps)
qed

text \<open>Claim C2, amended, for \<open>(3, 0)\<close> on the 3 x 3 game.\<close>

theorem out_of_range_call_witness:
  "game_after 1000 3 3 1 [4, 4] [Reveal 0 0, Flag 2 2] = Some played_3x3
   \<and> outcome_of played_3x3 = InProgress
   \<and> ((3::int) < - rows played_3x3 \<or> rows played_3x3 \<le> 3 \<or> (0::int) < - cols played_3x3 \<or> cols played_3x3 \<le> 0)
   \<and> reveal 1000 played_3x3 3 0 = (Some IndexError, played_3x3)
   \<and> flag played_3x3 3 0 = (Some IndexError, played_3x3)"
proof -
  have h1: "game_after 1000 3 3 1 [4, 4] [Reveal 0 0, Flag 2 2] = Some played_3x3" by code_simp
  have h2: "outcome_of played_3x3 = InProgress" by code_simp
  have h3: "(3::int) < - rows played_3x3 \<or> rows played_3x3 \<le> 3 \<or> (0::int) < - cols played_3x3 \<or> cols played_3x3 \<le> 0"
    by code_simp
  from out_of_range_call[OF h1 h2 h3] h1 h2 h3 show ?thesis by blast
qed

text \<open>
  Claim C2 as stated fails twice. On the 1 x 3 engine \<open>flag(0, -1)\<close> raises nothing and
  flags the cell \<open>(0, 2)\<close>; and once that game is lost, \<open>reveal(5, 7)\<close> returns without
  raising.
\<close>

theorem out_of_range_counterexample:
  "\<not> in_range game_1x3 0 (- 1)
   \<and> game_after 1000 1 3 1 [0, 0] [] = Some game_1x3
   \<and> flag game_1x3 0 (- 1) = (None, game_1x3\<lparr>visible_board := [['' '', '' '', ''F'']]\<rparr>)
   \<and> game_after 1000 1 3 1 [0, 0] [Reveal 0 0]
        = Some (game_1x3\<lparr>visible_board := [[''M'', '' '', '' '']], game_over := True\<rparr>)
   \<and> \<not> in_range game_1x3 5 7
   \<and> reveal 1000 (game_1x3\<lparr>visible_board := [[''M'', '' '', '' '']], game_over := True\<rparr>) 5 7
        = (None, game_1x3\<lparr>visible_board := [[''M'', '' '', '' '']], game_over := True\<rparr>)"
  by code_simp

subsection \<open>Construction without validation\<close>

lemma calculate_cells_blank:
  assumes "shaped g" "\<And>r c. in_range g r c \<Longrightarrow> grid_get (board g) r c = Inr (Count 0)"
    and "\<And>r c. (r, c) \<in> set cells \<Longrightarrow> in_range g r c"
  shows "calculate_cells g cells = Inr g"
  using assms(3)
proof (induction cells)
  case Nil
  then show ?case by simp
next
  case (Cons x cells)
  obtain r c where x: "x = (r, c)" by (cases x)
  have rng: "in_range g r c" using Cons.prems[of r c] x by simp
  have v: "grid_get (board g) r c = Inr (Count 0)" by (rule assms(2)[OF rng])
  have nb: "grid_get (board g) i j = Inr (Count 0)" if "(i, j) \<in> set (get_neighbors g r c)" for i j
    by (rule assms(2)[OF get_neighbors_in_range[OF that]])
  obtain n where n: "count_adjacent (board g) (get_neighbors g r c) 0 = Inr n"
    using count_adjacent_ok[of "get_neighbors g r c" "board g" 0] nb by blast
  have "filter (\<lambda>(i, j). grid_get (board g) i j = Inr Mine) (get_neighbors g r c) = []"
    using nb by (auto simp: filter_empty_conv)
  with count_adjacent_eq[OF n] have n0: "n = 0" by simp
  have sh: "map length (board g) = replicate (nat (rows g)) (nat (cols g))"
    using assms(1) by (simp add: shaped_def)
  have rc: "0 \<le> r" "r < int (nat (rows g))" "0 \<le> c" "c < int (nat (cols g))"
    using rng by (auto simp: in_range_def)
  have "board g ! nat r ! nat c = Count 0"
    using v grid_get_in[OF sh rc] by simp
  then have "grid_set (board g) r c (Count 0) = Inr (board g)"
    unfolding grid_set_in[OF sh rc] by (metis list_update_id)
  moreover have "calculate_cells g cells = Inr g"
    by (rule Cons.IH) (use Cons.prems in simp)
  ultimately show ?case using x v n n0 by simp
qed

lemma init_no_mines:
  assumes "mines \<le> 0"
  shows "init rws cls mines draws = Some (Inr (new_game rws cls mines))"
proof -
  let ?g = "new_game rws cls mines"
  have "place_mines ?g 0 draws = Some (Inr ?g)"
    using assms by (subst place_mines.simps) simp
  moreover have "calculate_numbers ?g = Inr ?g"
    unfolding calculate_numbers_def
    by (rule calculate_cells_blank[OF new_game_shaped new_game_cells(1)])
       (simp_all add: set_all_cells)
  ultimately show ?thesis by (simp add: init_def)
qed

lemma init_empty_range:
  assumes "0 < mines" "rws \<le> 0 \<or> cls \<le> 0 \<and> draws \<noteq> []"
  shows "init rws cls mines draws = Some (Inl ValueError)"
proof -
  have "place_mines (new_game rws cls mines) 0 draws = Some (Inl ValueError)"
    using assms by (subst place_mines.simps) (auto split: list.splits)
  then show ?thesis by (simp add: init_def)
qed

lemma grid_count_le:
  assumes "map length b = replicate n m"
  shows "grid_count v b \<le> n * m"
proof -
  have "grid_count v b \<le> sum_list (map length b)"
    unfolding grid_count_def by (rule sum_list_mono) (simp add: count_le_length)
  also have "\<dots> = n * m" unfolding assms by (simp add: sum_list_replicate)
  finally show ?thesis .
qed

lemma randint_bounds: "0 < n \<Longrightarrow> 0 \<le> randint 0 (n - 1) x \<and> randint 0 (n - 1) x < n"
  by (simp add: randint_def)

lemma place_mines_never_ends:
  assumes "shaped g" "0 < rows g" "0 < cols g"
    and "mines_placed = int (grid_count Mine (board g))"
    and "rows g * cols g < num_mines g"
  shows "place_mines g mines_placed draws = None"
  using assms
proof (induction g mines_placed draws rule: place_mines.induct)
  case (1 g mines_placed draws)
  have sh: "map length (board g) = replicate (nat (rows g)) (nat (cols g))"
    using "1.prems"(1) by (simp add: shaped_def)
  have "int (grid_count Mine (board g)) \<le> int (nat (rows g) * nat (cols g))"
    using grid_count_le[OF sh, of Mine] by (simp only: of_nat_le_iff)
  also have "\<dots> = rows g * cols g" using "1.prems"(2,3) by simp
  finally have lt: "mines_placed < num_mines g" using "1.prems"(4,5) by simp
  have r: "\<not> rows g - 1 < 0" and c: "\<not> cols g - 1 < 0" using "1.prems"(2,3) by auto
  show ?case
  proof (cases draws)
    case Nil
    with lt r show ?thesis by (subst place_mines.simps) simp
  next
    case d1: (Cons x draws1)
    show ?thesis
    proof (cases draws1)
      case Nil
      with lt r c d1 show ?thesis by (subst place_mines.simps) simp
    next
      case d2: (Cons y draws2)
      let ?r = "randint 0 (rows g - 1) x" and ?c = "randint 0 (cols g - 1) y"
      have rng: "in_range g ?r ?c"
        using randint_bounds[OF "1.prems"(2)] randint_bounds[OF "1.prems"(3)]
        by (simp add: in_range_def)
      then have rc: "0 \<le> ?r" "?r < int (nat (rows g))" "0 \<le> ?c" "?c < int (nat (cols g))"
        by (auto simp: in_range_def)
      let ?v = "board g ! nat ?r ! nat ?c"
      have v: "grid_get (board g) ?r ?c = Inr ?v" by (rule grid_get_in[OF sh rc])
      show ?thesis
      proof (cases "?v = Mine")
        case True
        have "place_mines g mines_placed draws2 = None"
          by (rule "1.IH"(2)[OF _ r d1 c d2 v _ "1.prems"]) (use lt True in simp_all)
        with lt r c d1 d2 v True show ?thesis by (subst place_mines.simps) simp
      next
        case False
        let ?b = "(board g)[nat ?r := (board g ! nat ?r)[nat ?c := Mine]]"
        have b: "grid_set (board g) ?r ?c Mine = Inr ?b" by (rule grid_set_in[OF sh rc])
        have cnt: "grid_count Mine ?b = grid_count Mine (board g) + 1"
          using grid_count_set[OF v b, of Mine] False by simp
        have "place_mines (g\<lparr>board := ?b\<rparr>) (mines_placed + 1) draws2 = None"
        proof (rule "1.IH"(1)[OF _ r d1 c d2 v _ b])
          show "shaped (g\<lparr>board := ?b\<rparr>)"
            by (rule board_frame_shaped[OF board_frame_set[OF b] "1.prems"(1)])
          show "mines_placed + 1 = int (grid_count Mine (board (g\<lparr>board := ?b\<rparr>)))"
            using cnt "1.prems"(4) by simp
        qed (use lt False "1.prems" in simp_all)
        with lt r c d1 d2 v False b show ?thesis by (subst place_mines.simps) simp
      qed
    qed
  qed
qed

lemma new_game_no_mines: "grid_count Mine (board (new_game rws cls mines)) = 0"
  by (auto simp: grid_count_def new_game_def comp_def count_list_0_iff)

lemma init_never_ends:
  assumes "0 < rws" "0 < cls" "rws * cls < mines"
  shows "init rws cls mines draws = None"
proof -
  have "place_mines (new_game rws cls mines) 0 draws = None"
    by (rule place_mines_never_ends[OF new_game_shaped])
       (use assms in \<open>simp_all add: new_game_no_mines\<close>)
  then show ?thesis by (simp add: init_def)
qed

text \<open>
  Claim C3, amended. \<open>__init__\<close> checks nothing. With \<open>num_mines \<le> 0\<close> it returns an engine
  without hazards, whatever the dimensions. With \<open>num_mines > 0\<close> and \<open>rows \<le> 0\<close>, or
  \<open>cols \<le> 0\<close> once a row has been drawn, it raises the \<open>ValueError\<close> of \<open>randint\<close>. With
  positive dimensions and \<open>num_mines > rows * cols\<close> the placement loop is still running
  after any finite number of draws.
\<close>

theorem init_unchecked:
  "(mines \<le> 0 \<longrightarrow> init rws cls mines draws = Some (Inr (new_game rws cls mines)))
   \<and> (0 < mines \<and> (rws \<le> 0 \<or> cls \<le> 0 \<and> draws \<noteq> []) \<longrightarrow>
        init rws cls mines draws = Some (Inl ValueError))
   \<and> (0 < rws \<and> 0 < cls \<and> rws * cls < mines \<longrightarrow> init rws cls mines draws = None)"
  using init_no_mines init_empty_range init_never_ends by blast

text \<open>Claim C3, amended: \<open>Minesweeper(2, 2, -3)\<close>, \<open>Minesweeper(0, 3, 2)\<close> and
  \<open>Minesweeper(2, 2, 5)\<close>.\<close>

theorem init_unchecked_witness:
  "(- 3 \<le> (0::int) \<and> init 2 2 (- 3) [] = Some (Inr (new_game 2 2 (- 3))))
   \<and> ((0::int) < 2 \<and> ((0::int) \<le> 0 \<or> (3::int) \<le> 0 \<and> ([]::int list) \<noteq> [])
        \<and> init 0 3 2 [] = Some (Inl ValueError))
   \<and> ((0::int) < 2 \<and> (0::int) < 2 \<and> (2::int) * 2 < 5
        \<and> init 2 2 5 [0, 0, 0, 1, 1, 0, 1, 1, 0, 0] = None)"
proof -
  have h1: "- 3 \<le> (0::int)" by simp
  have h2: "(0::int) < 2 \<and> ((0::int) \<le> 0 \<or> (3::int) \<le> 0 \<and> ([]::int list) \<noteq> [])" by simp
  have h3: "(0::int) < 2 \<and> (0::int) < 2 \<and> (2::int) * 2 < 5" by simp
  from init_unchecked[of "- 3" 2 2 "[]"] init_unchecked[of 2 0 3 "[]"]
    init_unchecked[of 5 2 2 "[0, 0, 0, 1, 1, 0, 1, 1, 0, 0]"] h1 h2 h3
  show ?thesis by blast
qed

text \<open>
  Claim C3 as stated fails: \<open>Minesweeper(1, 1, 1)\<close>, where \<open>num_mines = rows * cols\<close>, is
  built, with its one cell a mine; \<open>Minesweeper(1, 1, -1)\<close> and \<open>Minesweeper(0, 0, 0)\<close> are
  built too.
\<close>

theorem init_full_board_counterexample:
  "init 1 1 1 [0, 0]
     = Some (Inr \<lparr>rows = 1, cols = 1, num_mines = 1, board = [[Mine]],
                  visible_board = [['' '']], game_over = False, win = False\<rparr>)
   \<and> init 1 1 (- 1) []
     = Some (Inr \<lparr>rows = 1, cols = 1, num_mines = - 1, board = [[Count 0]],
                  visible_board = [['' '']], game_over = False, win = False\<rparr>)
   \<and> init 0 0 0 []
     = Some (Inr \<lparr>rows = 0, cols = 0, num_mines = 0, board = [],
                  visible_board = [], game_over = False, win = False\<rparr>)"
  by code_simp

subsection \<open>The win check and the flags\<close>

text \<open>
  Claim C1 against the code. \<open>check_win\<close> counts the cells that hold \<open>' '\<close> only. On the
  1 x 3 engine with its mine on \<open>(0, 0)\<close>, after \<open>flag(0, 2)\<close> and \<open>reveal(0, 1)\<close> the one
  hidden cell equals the mine count and the game is \<open>Won\<close>, although \<open>(0, 2)\<close> is no
  hazard and is flagged, not revealed. On the 1 x 2 engine with its mine on \<open>(0, 0)\<close>,
  after \<open>flag(0, 0)\<close> and \<open>reveal(0, 1)\<close> every cell that is no hazard is revealed and the
  game is still in progress.
\<close>

theorem check_win_counts_hidden_only:
  "game_after 1000 1 3 1 [0, 0] [Flag 0 2, Reveal 0 1]
     = Some (game_1x3\<lparr>visible_board := [['' '', ''1'', ''F'']], game_over := True, win := True\<rparr>)
   \<and> outcome_of (game_1x3\<lparr>visible_board := [['' '', ''1'', ''F'']], game_over := True, win := True\<rparr>) = Won
   \<and> grid_get (board game_1x3) 0 2 = Inr (Count 0)
   \<and> game_after 1000 1 2 1 [0, 0] [Flag 0 0, Reveal 0 1]
     = Some \<lparr>rows = 1, cols = 2, num_mines = 1, board = [[Mine, Count 1]],
             visible_board = [[''F'', ''1'']], game_over = False, win = False\<rparr>"
  by code_simp

text \<open>
  Claim C5 against the code. On the 1 x 4 engine with its mine on \<open>(0, 0)\<close>, after
  \<open>flag(0, 0)\<close>, \<open>reveal(0, 2)\<close> reveals \<open>(0, 2)\<close> and its neighbour \<open>(0, 1)\<close>; the win
  check at the end of that inner call counts one hidden cell for one mine and ends the
  game, and the neighbour \<open>(0, 3)\<close>, whose count is 0, stays hidden. The call has 1000
  frames and returns without an exception: the stack is not what cuts the cascade.
\<close>

theorem cascade_cut_short_by_win_check:
  "game_after 1000 1 4 1 [0, 0] [Flag 0 0, Reveal 0 2]
     = Some (game_1x4\<lparr>visible_board := [[''F'', ''1'', ''0'', '' '']],
                       game_over := True, win := True\<rparr>)
   \<and> grid_get (board game_1x4) 0 2 = Inr (Count 0)
   \<and> grid_get (board game_1x4) 0 3 = Inr (Count 0)
   \<and> get_neighbors game_1x4 0 2 = [(0, 1), (0, 3)]
   \<and> fst (reveal 1000 (snd (flag game_1x4 0 0)) 0 2) = None"
  by code_simp

end
